theory Spec2Isabelle
  imports Main "HOL-Library.Sublist"
begin

section \<open>Data model\<close>

text \<open>
  Modelled from the spec: the header \<^verbatim>\<open>cowfs.hpp\<close>, which declares the structs
  \<^verbatim>\<open>VersionInfo\<close>, \<^verbatim>\<open>Block\<close>, \<^verbatim>\<open>Inode\<close>, \<^verbatim>\<open>FileDescriptor\<close>, \<^verbatim>\<open>FreeBlockInfo\<close> and
  \<^verbatim>\<open>FileStatus\<close>, the enum \<^verbatim>\<open>FileMode\<close> and the constants \<^verbatim>\<open>BLOCK_SIZE\<close>, \<^verbatim>\<open>MAX_FILES\<close>
  and \<^verbatim>\<open>MAX_FILENAME_LENGTH\<close>, is missing from the sources. The records below have the
  attributes that section 3 of the specification lists, under the names by which
  \<^verbatim>\<open>cowfs.cpp\<close> reads and writes them; the member \<^verbatim>\<open>shared_blocks\<close> of an inode, which
  the source only clears, is left out. The three constants are parameters of the
  functions that use them. Every function of the model is translated from
  \<^verbatim>\<open>cowfs.cpp\<close>.

  A byte (\<^verbatim>\<open>uint8_t\<close>) is a \<^typ>\<open>char\<close>, so that buffers can be written as string
  literals; the zero byte is \<open>CHR 0x00\<close>. Values of type \<^verbatim>\<open>size_t\<close> are natural
  numbers; the one subtraction of the source that can wrap around (in \<^verbatim>\<open>read\<close>) is
  written out modulo \<open>2 ^ 64\<close>, and sums are taken to stay below \<open>2 ^ 64\<close>. A field
  of two records (\<^verbatim>\<open>is_used\<close>, \<^verbatim>\<open>size\<close>) carries the record's name as a suffix in one
  of them.
\<close>

type_synonym byte = char

datatype FileMode = READ | WRITE

record VersionInfo =
  version_number :: nat
  timestamp :: string
  size_version :: nat
  block_index :: nat
  delta_start :: nat
  delta_size :: nat
  prev_version :: nat

record Block =
  is_used :: bool
  next_block :: nat
  ref_count :: nat
  data :: "byte list"

record Inode =
  is_used_inode :: bool
  filename :: string
  first_block :: nat
  size_inode :: nat
  version_count :: nat
  version_history :: "VersionInfo list"

text \<open>
  \<^verbatim>\<open>FileDescriptor::inode\<close> is an \<^verbatim>\<open>Inode*\<close> into the vector \<^verbatim>\<open>inodes\<close>, which is
  never resized after construction: the pointer is the index of the slot, and
  \<^verbatim>\<open>nullptr\<close> is \<open>None\<close>.
\<close>

record FileDescriptor =
  inode :: "nat option"
  mode :: FileMode
  current_position :: nat
  is_valid :: bool

text \<open>The linked list of \<^verbatim>\<open>FreeBlockInfo\<close> nodes is the list of its nodes in link order.\<close>

record FreeBlockInfo =
  start_block :: nat
  block_count :: nat

record COWFileSystem =
  file_descriptors :: "FileDescriptor list"
  inodes :: "Inode list"
  blocks :: "Block list"
  free_blocks_list :: "FreeBlockInfo list"

section \<open>The delta detector\<close>

text \<open>
  \<^verbatim>\<open>find_delta\<close>, lines 275-324. The two buffers are lists and the two sizes are passed
  beside them as in the source; the source reads \<open>old_data\<close> below \<open>old_size\<close> and
  \<open>new_data\<close> below \<open>new_size\<close> only. The function returns \<^verbatim>\<open>true\<close> on every path, so
  the model returns the two output parameters alone.
\<close>

function delta_start_loop :: "byte list \<Rightarrow> byte list \<Rightarrow> nat \<Rightarrow> nat \<Rightarrow> nat \<Rightarrow> nat" where
  "delta_start_loop old_bytes new_bytes old_size new_size d_start =
     (if d_start < old_size \<and> d_start < new_size \<and>
         old_bytes ! d_start = new_bytes ! d_start
      then delta_start_loop old_bytes new_bytes old_size new_size (d_start + 1)
      else d_start)"
  by pat_completeness auto
termination
  by (relation "measure (\<lambda>(ob, nb, os, ns, d). os - d)") auto

declare delta_start_loop.simps [simp del]

function common_suffix_loop ::
  "byte list \<Rightarrow> byte list \<Rightarrow> nat \<Rightarrow> nat \<Rightarrow> nat \<Rightarrow> nat \<Rightarrow> nat" where
  "common_suffix_loop old_bytes new_bytes old_size new_size d_start common_suffix =
     (if common_suffix < old_size - d_start \<and>
         common_suffix < new_size - d_start \<and>
         old_bytes ! (old_size - 1 - common_suffix) = new_bytes ! (new_size - 1 - common_suffix)
      then common_suffix_loop old_bytes new_bytes old_size new_size d_start (common_suffix + 1)
      else common_suffix)"
  by pat_completeness auto
termination
  by (relation "measure (\<lambda>(ob, nb, os, ns, d, c). (os - d) - c)") auto

declare common_suffix_loop.simps [simp del]

definition find_delta :: "byte list \<Rightarrow> byte list \<Rightarrow> nat \<Rightarrow> nat \<Rightarrow> nat \<times> nat" where
  "find_delta old_data new_data old_size new_size =
     (if old_size = new_size \<and> take old_size old_data = take old_size new_data then (0, 0)
      else
        let d_start = delta_start_loop old_data new_data old_size new_size 0 in
        if d_start = new_size \<and> new_size < old_size then (d_start, 0)
        else if d_start = old_size \<and> new_size > old_size then (d_start, new_size - old_size)
        else
          let common_suffix =
                common_suffix_loop old_data new_data old_size new_size d_start 0;
              d_size = (new_size - d_start) - common_suffix
          in if d_start + d_size > new_size
             then (d_start, new_size - d_start)
             else (d_start, d_size))"

text \<open>
  The detector as section 4.7 of the specification words it: the common prefix and the
  common suffix of the two buffers, the suffix scan bounded by
  \<open>min old_size new_size - delta_start\<close>.
\<close>

definition find_delta_spec :: "byte list \<Rightarrow> byte list \<Rightarrow> nat \<Rightarrow> nat \<Rightarrow> nat \<times> nat" where
  "find_delta_spec old_data new_data old_size new_size =
     (let old = take old_size old_data; new = take new_size new_data in
      if old_size = new_size \<and> old = new then (0, 0)
      else
        let d_start = length (longest_common_prefix old new) in
        if d_start = new_size \<and> new_size \<le> old_size then (d_start, 0)
        else if d_start = old_size \<and> new_size > old_size then (d_start, new_size - old_size)
        else
          let common_suffix =
                min (length (longest_common_prefix (rev old) (rev new)))
                    (min old_size new_size - d_start);
              d_size = (new_size - d_start) - common_suffix
          in (d_start, min d_size (new_size - d_start)))"

section \<open>Memory helpers\<close>

text \<open>
  \<^verbatim>\<open>memcpy(dst, src, n)\<close> and \<^verbatim>\<open>memset(dst + off, c, n)\<close> on byte lists; the result is the
  new contents of \<open>dst\<close>.
\<close>

definition memcpy :: "byte list \<Rightarrow> byte list \<Rightarrow> nat \<Rightarrow> byte list" where
  "memcpy dst src n = take n src @ drop n dst"

definition memset_from :: "byte list \<Rightarrow> nat \<Rightarrow> byte \<Rightarrow> nat \<Rightarrow> byte list" where
  "memset_from dst off c n = take off dst @ replicate n c @ drop (off + n) dst"

text \<open>The C string held by a \<^verbatim>\<open>std::string\<close>: its bytes up to the first zero byte.\<close>

definition c_str :: "string \<Rightarrow> string" where
  "c_str fname = takeWhile (\<lambda>c. c \<noteq> CHR 0x00) fname"

text \<open>The position of the first element that satisfies a test, as the scanning loops find it.\<close>

fun find_first :: "('a \<Rightarrow> bool) \<Rightarrow> 'a list \<Rightarrow> nat option" where
  "find_first P [] = None"
| "find_first P (x # xs) = (if P x then Some 0 else map_option Suc (find_first P xs))"

definition SIZE_MAX :: nat where
  "SIZE_MAX = 2 ^ 64 - 1"

text \<open>Subtraction of two \<^verbatim>\<open>size_t\<close> values, which wraps around below zero.\<close>

definition sub_size_t :: "nat \<Rightarrow> nat \<Rightarrow> nat" where
  "sub_size_t a b = (if b \<le> a then a - b else 2 ^ 64 + a - b)"

section \<open>Free-space manager\<close>

text \<open>
  \<^verbatim>\<open>merge_free_blocks\<close>, lines 872-892. Its boolean result is dropped by both callers; the
  model returns the list.
\<close>

fun merge_free_blocks :: "FreeBlockInfo list \<Rightarrow> FreeBlockInfo list" where
  "merge_free_blocks (current # nxt # rest) =
     (if start_block current + block_count current = start_block nxt
      then merge_free_blocks (current\<lparr>block_count := block_count current + block_count nxt\<rparr> # rest)
      else current # merge_free_blocks (nxt # rest))"
| "merge_free_blocks fl = fl"

text \<open>\<^verbatim>\<open>add_to_free_list\<close>, lines 912-928: the walk to the insertion point, then the merge.\<close>

fun insert_after_loop :: "FreeBlockInfo \<Rightarrow> FreeBlockInfo list \<Rightarrow> FreeBlockInfo list" where
  "insert_after_loop new_block (current # nxt # rest) =
     (if start_block nxt < start_block new_block
      then current # insert_after_loop new_block (nxt # rest)
      else current # new_block # nxt # rest)"
| "insert_after_loop new_block [current] = [current, new_block]"
| "insert_after_loop new_block [] = [new_block]"

definition add_to_free_list :: "FreeBlockInfo list \<Rightarrow> nat \<Rightarrow> nat \<Rightarrow> FreeBlockInfo list" where
  "add_to_free_list fl start cnt =
     (let new_block = \<lparr>start_block = start, block_count = cnt\<rparr> in
      merge_free_blocks
        (if fl = [] \<or> start < start_block (hd fl) then new_block # fl
         else insert_after_loop new_block fl))"

text \<open>
  \<^verbatim>\<open>find_best_fit\<close>, lines 930-948. The node found is given by its position in the list;
  \<open>k\<close> is the position of \<open>current\<close>.
\<close>

fun find_best_fit_loop ::
  "FreeBlockInfo list \<Rightarrow> nat \<Rightarrow> nat \<Rightarrow> nat option \<Rightarrow> nat \<Rightarrow> nat option" where
  "find_best_fit_loop [] blocks_needed k best_fit smallest_difference = best_fit"
| "find_best_fit_loop (current # rest) blocks_needed k best_fit smallest_difference =
     (if block_count current \<ge> blocks_needed then
        (let difference = block_count current - blocks_needed in
         if difference < smallest_difference then
           (if difference = 0 then Some k
            else find_best_fit_loop rest blocks_needed (k + 1) (Some k) difference)
         else find_best_fit_loop rest blocks_needed (k + 1) best_fit smallest_difference)
      else find_best_fit_loop rest blocks_needed (k + 1) best_fit smallest_difference)"

definition find_best_fit :: "FreeBlockInfo list \<Rightarrow> nat \<Rightarrow> nat option" where
  "find_best_fit fl blocks_needed = find_best_fit_loop fl blocks_needed 0 None SIZE_MAX"

section \<open>Block store and reference counter\<close>

text \<open>
  Functions that can leave the defined behaviour of the source return an option, and
  \<open>None\<close> says that the call has no result: it indexes \<^verbatim>\<open>blocks\<close> out of range, reads a
  destroyed object, or walks a chain without end.

  \<^verbatim>\<open>allocate_block\<close>, lines 567-609. The result is the returned boolean, the value of the
  reference parameter \<^verbatim>\<open>block_index\<close> after the call, and the new state.
\<close>

definition allocate_block :: "COWFileSystem \<Rightarrow> nat \<Rightarrow> (bool \<times> nat \<times> COWFileSystem) option" where
  "allocate_block s block_idx =
     (case find_best_fit (free_blocks_list s) 1 of
        None \<Rightarrow> Some (False, block_idx, s)
      | Some k \<Rightarrow>
          let best_block = free_blocks_list s ! k;
              idx = start_block best_block;
              fl = (if block_count best_block > 1
                    then (free_blocks_list s)
                           [k := best_block\<lparr>start_block := start_block best_block + 1,
                                            block_count := block_count best_block - 1\<rparr>]
                    else take k (free_blocks_list s) @ drop (Suc k) (free_blocks_list s))
          in if idx < length (blocks s)
             then Some (True, idx,
                    s\<lparr>free_blocks_list := fl,
                      blocks := (blocks s)
                        [idx := (blocks s ! idx)\<lparr>is_used := True, next_block := 0, ref_count := 0\<rparr>]\<rparr>)
             else None)"

text \<open>\<^verbatim>\<open>free_block\<close>, lines 611-616.\<close>

definition free_block :: "Block list \<Rightarrow> nat \<Rightarrow> Block list" where
  "free_block bl idx =
     (if idx < length bl then bl[idx := (bl ! idx)\<lparr>is_used := False, next_block := 0\<rparr>] else bl)"

text \<open>\<^verbatim>\<open>increment_block_refs\<close>, lines 631-636.\<close>

partial_function (option) increment_block_refs :: "Block list \<Rightarrow> nat \<Rightarrow> Block list option" where
  "increment_block_refs bl idx =
     (if idx \<noteq> 0 \<and> idx < length bl
      then increment_block_refs (bl[idx := (bl ! idx)\<lparr>ref_count := ref_count (bl ! idx) + 1\<rparr>])
             (next_block (bl ! idx))
      else Some bl)"

declare increment_block_refs.simps [code]

text \<open>
  \<^verbatim>\<open>decrement_block_refs\<close>, lines 638-652. When the count of a block reaches zero the
  source sets \<^verbatim>\<open>block_index = next_block\<close> at line 645 and then runs line 650,
  \<^verbatim>\<open>block_index = blocks[block_index].next_block\<close>, as well; that second read is out of
  range when the recorded successor is.
\<close>

partial_function (option) decrement_block_refs :: "Block list \<Rightarrow> nat \<Rightarrow> Block list option" where
  "decrement_block_refs bl idx =
     (if idx \<noteq> 0 \<and> idx < length bl then
        (if ref_count (bl ! idx) > 0 then
           (let bl1 = bl[idx := (bl ! idx)\<lparr>ref_count := ref_count (bl ! idx) - 1\<rparr>] in
            if ref_count (bl1 ! idx) = 0 then
              (let nxt = next_block (bl1 ! idx);
                   bl2 = free_block bl1 idx
               in if nxt < length bl2
                  then decrement_block_refs bl2 (next_block (bl2 ! nxt))
                  else None)
            else Some bl1)
         else decrement_block_refs bl (next_block (bl ! idx)))
      else Some bl)"

declare decrement_block_refs.simps [code]

section \<open>Inode table and file-descriptor table\<close>

text \<open>\<^verbatim>\<open>find_inode\<close>, lines 536-550, and \<^verbatim>\<open>allocate_file_descriptor\<close>, lines 552-559.\<close>

definition find_inode :: "COWFileSystem \<Rightarrow> string \<Rightarrow> nat option" where
  "find_inode s fname =
     find_first (\<lambda>nd. is_used_inode nd \<and> filename nd = c_str fname) (inodes s)"

definition allocate_file_descriptor :: "COWFileSystem \<Rightarrow> nat option" where
  "allocate_file_descriptor s = find_first (\<lambda>e. \<not> is_valid e) (file_descriptors s)"

text \<open>The test that opens every operation on a handle.\<close>

definition invalid_fd :: "COWFileSystem \<Rightarrow> int \<Rightarrow> bool" where
  "invalid_fd s fd \<longleftrightarrow>
     fd < 0 \<or> fd \<ge> int (length (file_descriptors s)) \<or> \<not> is_valid (file_descriptors s ! nat fd)"

text \<open>
  \<^verbatim>\<open>create\<close>, lines 86-132. \<open>MAXLEN\<close> is \<^verbatim>\<open>MAX_FILENAME_LENGTH\<close>. The result is the
  returned descriptor (\<open>-1\<close> on failure) and the new state.
\<close>

definition create :: "nat \<Rightarrow> COWFileSystem \<Rightarrow> string \<Rightarrow> int \<times> COWFileSystem" where
  "create MAXLEN s fname =
     (if length fname \<ge> MAXLEN then (-1, s)
      else if find_inode s fname \<noteq> None then (-1, s)
      else
        (case find_first (\<lambda>nd. \<not> is_used_inode nd) (inodes s) of
          None \<Rightarrow> (-1, s)
        | Some k \<Rightarrow>
            let nd = \<lparr>is_used_inode = True, filename = take (MAXLEN - 1) (c_str fname),
                      first_block = 0, size_inode = 0, version_count = 0, version_history = []\<rparr>;
                s1 = s\<lparr>inodes := (inodes s)[k := nd]\<rparr>
            in (case allocate_file_descriptor s1 of
                  None \<Rightarrow> (-1, s1\<lparr>inodes := (inodes s1)[k := nd\<lparr>is_used_inode := False\<rparr>]\<rparr>)
                | Some fd \<Rightarrow>
                    (int fd,
                     s1\<lparr>file_descriptors := (file_descriptors s1)
                          [fd := \<lparr>inode = Some k, mode = WRITE, current_position = 0,
                                  is_valid = True\<rparr>]\<rparr>))))"

text \<open>\<^verbatim>\<open>open\<close>, lines 134-169.\<close>

definition open_file :: "COWFileSystem \<Rightarrow> string \<Rightarrow> FileMode \<Rightarrow> int \<times> COWFileSystem" where
  "open_file s fname md =
     (case find_inode s fname of
        None \<Rightarrow> (-1, s)
      | Some k \<Rightarrow>
          (case allocate_file_descriptor s of
             None \<Rightarrow> (-1, s)
           | Some fd \<Rightarrow>
               (int fd,
                s\<lparr>file_descriptors := (file_descriptors s)
                     [fd := (file_descriptors s ! fd)
                        \<lparr>inode := Some k, mode := md, is_valid := True, current_position := 0\<rparr>]\<rparr>)))"

text \<open>\<^verbatim>\<open>close\<close>, lines 525-533.\<close>

definition close :: "COWFileSystem \<Rightarrow> int \<Rightarrow> int \<times> COWFileSystem" where
  "close s fd =
     (if invalid_fd s fd then (-1, s)
      else (0, s\<lparr>file_descriptors := (file_descriptors s)
                   [nat fd := (file_descriptors s ! nat fd)\<lparr>is_valid := False\<rparr>]\<rparr>))"

section \<open>Read path\<close>

text \<open>
  The loop of lines 219-228 that skips whole blocks; \<open>None\<close> is its \<^verbatim>\<open>return -1\<close>.
\<close>

function skip_blocks_loop :: "Block list \<Rightarrow> nat \<Rightarrow> nat \<Rightarrow> nat \<Rightarrow> nat option" where
  "skip_blocks_loop bl blocks_skipped i current_block =
     (if i < blocks_skipped \<and> current_block < length bl then
        (let nxt = next_block (bl ! current_block) in
         if nxt \<ge> length bl \<and> i < blocks_skipped - 1 then None
         else skip_blocks_loop bl blocks_skipped (i + 1) nxt)
      else Some current_block)"
  by pat_completeness auto
termination
  by (relation "measure (\<lambda>(bl, n, i, c). n - i)") auto

declare skip_blocks_loop.simps [simp del]

text \<open>
  The copying loop of lines 237-256. The result is: whether the loop ran to its end
  (\<open>False\<close> is the \<^verbatim>\<open>return -1\<close> at an unused block), \<^verbatim>\<open>bytes_read\<close>, and the bytes put
  into the caller's buffer so far.
  With \<^verbatim>\<open>BLOCK_SIZE = 0\<close> a pass copies nothing and the loop need
  not end, hence the option; \<open>read_loop_returns\<close> below shows that it ends otherwise.
\<close>

partial_function (option) read_loop ::
  "nat \<Rightarrow> Block list \<Rightarrow> nat \<Rightarrow> nat \<Rightarrow> byte list \<Rightarrow> nat \<Rightarrow> nat \<Rightarrow> (bool \<times> nat \<times> byte list) option" where
  "read_loop BS bl bytes_to_read bytes_read buf current_block block_offset =
     (if bytes_read < bytes_to_read \<and> current_block < length bl then
        (if \<not> is_used (bl ! current_block) then Some (False, bytes_read, buf)
         else
           let chunk_size = min (bytes_to_read - bytes_read) (BS - block_offset) in
           read_loop BS bl bytes_to_read (bytes_read + chunk_size)
             (buf @ take chunk_size (drop block_offset (data (bl ! current_block))))
             (next_block (bl ! current_block)) 0)
      else Some (True, bytes_read, buf))"

declare read_loop.simps [code]

text \<open>
  \<^verbatim>\<open>read\<close>, lines 171-265. \<open>BS\<close> is \<^verbatim>\<open>BLOCK_SIZE\<close>. The result is the returned count
  (\<open>-1\<close> on failure), the bytes written to the caller's buffer, and the new state.
\<close>

definition read ::
  "nat \<Rightarrow> COWFileSystem \<Rightarrow> int \<Rightarrow> nat \<Rightarrow> (int \<times> byte list \<times> COWFileSystem) option" where
  "read BS s fd nbytes =
     (if invalid_fd s fd then Some (-1, [], s)
      else
        let fd_entry = file_descriptors s ! nat fd in
        (case inode fd_entry of
          None \<Rightarrow> Some (-1, [], s)
        | Some ino \<Rightarrow>
            let nd = inodes s ! ino in
            if size_inode nd = 0 then Some (0, [], s)
            else if first_block nd \<ge> length (blocks s) \<or> \<not> is_used (blocks s ! first_block nd)
            then Some (-1, [], s)
            else
              let bytes_to_read =
                    min nbytes (sub_size_t (size_inode nd) (current_position fd_entry)) in
              if bytes_to_read = 0 then Some (0, [], s)
              else
                (case skip_blocks_loop (blocks s) (current_position fd_entry div BS) 0
                       (first_block nd) of
                  None \<Rightarrow> Some (-1, [], s)
                | Some current_block \<Rightarrow>
                    if current_block \<ge> length (blocks s) then Some (-1, [], s)
                    else
                      (case read_loop BS (blocks s) bytes_to_read 0 [] current_block
                             (current_position fd_entry mod BS) of
                        None \<Rightarrow> None
                      | Some (ok, bytes_read, buf) \<Rightarrow>
                          if \<not> ok then Some (-1, buf, s)
                          else Some (int bytes_read, buf,
                                 s\<lparr>file_descriptors := (file_descriptors s)
                                      [nat fd := fd_entry
                                         \<lparr>current_position :=
                                            current_position fd_entry + bytes_read\<rparr>]\<rparr>)))))"

section \<open>Write path\<close>

text \<open>
  The clean-up loop of lines 355-359, run when an allocation fails in the middle of a
  chain.
\<close>

partial_function (option) free_chain_loop :: "Block list \<Rightarrow> nat \<Rightarrow> Block list option" where
  "free_chain_loop bl block_to_free =
     (if block_to_free \<noteq> 0 \<and> block_to_free < length bl
      then free_chain_loop (free_block bl block_to_free) (next_block (bl ! block_to_free))
      else Some bl)"

declare free_chain_loop.simps [code]

text \<open>
  The allocation loop of \<^verbatim>\<open>write_delta_blocks\<close>, lines 347-388. \<open>src\<close> is what the pointer
  \<^verbatim>\<open>data\<close> points at. The result is: whether every allocation succeeded,
  \<^verbatim>\<open>first_block\<close>, \<^verbatim>\<open>prev_block\<close>, and the new state.
\<close>

function write_delta_blocks_loop ::
  "nat \<Rightarrow> COWFileSystem \<Rightarrow> byte list \<Rightarrow> nat \<Rightarrow> nat \<Rightarrow> nat \<Rightarrow> nat \<Rightarrow> nat \<Rightarrow> nat \<Rightarrow>
     (bool \<times> nat \<times> nat \<times> COWFileSystem) option" where
  "write_delta_blocks_loop BS s src blocks_needed i first_blk current_blk prev_blk remaining =
     (if i < blocks_needed then
        (case allocate_block s current_blk of
           None \<Rightarrow> None
         | Some (ok, cur, s1) \<Rightarrow>
             if \<not> ok then
               (if first_blk \<noteq> 0 then
                  (case free_chain_loop (blocks s1) first_blk of
                     None \<Rightarrow> None
                   | Some bl \<Rightarrow> Some (False, 0, prev_blk, s1\<lparr>blocks := bl\<rparr>))
                else Some (False, 0, prev_blk, s1))
             else
               let first_blk1 = (if i = 0 then cur else first_blk);
                   bl1 = (if i = 0 then blocks s1
                          else (blocks s1)[prev_blk := (blocks s1 ! prev_blk)\<lparr>next_block := cur\<rparr>]);
                   bytes_to_write = min remaining BS;
                   d1 = memcpy (data (bl1 ! cur)) src bytes_to_write;
                   d2 = (if bytes_to_write < BS
                         then memset_from d1 bytes_to_write (CHR 0x00) (BS - bytes_to_write)
                         else d1);
                   bl2 = bl1[cur := (bl1 ! cur)\<lparr>data := d2\<rparr>]
               in write_delta_blocks_loop BS (s1\<lparr>blocks := bl2\<rparr>) (drop bytes_to_write src)
                    blocks_needed (i + 1) first_blk1 cur cur (remaining - bytes_to_write))
      else Some (True, first_blk, prev_blk, s))"
  by pat_completeness auto
termination
  by (relation "measure (\<lambda>(BS, s, src, n, i, f, c, p, r). n - i)") auto

declare write_delta_blocks_loop.simps [simp del]

text \<open>
  \<^verbatim>\<open>write_delta_blocks\<close>, lines 326-399. The result is the returned boolean, the value of
  the reference parameter \<^verbatim>\<open>first_block\<close>, and the new state.
\<close>

definition write_delta_blocks ::
  "nat \<Rightarrow> COWFileSystem \<Rightarrow> byte list \<Rightarrow> nat \<Rightarrow> nat \<Rightarrow> (bool \<times> nat \<times> COWFileSystem) option" where
  "write_delta_blocks BS s buffer nbytes d_start =
     (if nbytes = 0 \<or> d_start \<ge> nbytes then Some (True, 0, s)
      else
        let actual_size = min (nbytes - d_start) nbytes;
            blocks_needed = (actual_size + BS - 1) div BS
        in (case write_delta_blocks_loop BS s (drop d_start buffer) blocks_needed 0 0 0 0
                  actual_size of
             None \<Rightarrow> None
           | Some (ok, first_blk, prev_blk, s1) \<Rightarrow>
               if \<not> ok then Some (False, 0, s1)
               else Some (True, first_blk,
                      if prev_blk < length (blocks s1)
                      then s1\<lparr>blocks := (blocks s1)
                                 [prev_blk := (blocks s1 ! prev_blk)\<lparr>next_block := 0\<rparr>]\<rparr>
                      else s1)))"

text \<open>Setting the cursor of a handle.\<close>

definition set_position :: "COWFileSystem \<Rightarrow> int \<Rightarrow> nat \<Rightarrow> COWFileSystem" where
  "set_position s fd pos =
     s\<lparr>file_descriptors := (file_descriptors s)
          [nat fd := (file_descriptors s ! nat fd)\<lparr>current_position := pos\<rparr>]\<rparr>"

text \<open>
  \<^verbatim>\<open>write\<close>, lines 401-523 (\<open>write\<close> is a keyword of Isabelle). \<open>ts\<close> is the string that \<^verbatim>\<open>get_current_timestamp\<close> returns
  during the call. The list \<open>buffer\<close> is never a null pointer, so of the test
  \<^verbatim>\<open>!buffer || size == 0\<close> the second half remains. The result is the returned count
  (\<open>-1\<close> on failure) and the new state.
\<close>

definition write_file ::
  "nat \<Rightarrow> string \<Rightarrow> COWFileSystem \<Rightarrow> int \<Rightarrow> byte list \<Rightarrow> nat \<Rightarrow> (int \<times> COWFileSystem) option" where
  "write_file BS ts s fd buffer nbytes =
     (if invalid_fd s fd then Some (-1, s)
      else if mode (file_descriptors s ! nat fd) \<noteq> WRITE then Some (-1, s)
      else
        (case inode (file_descriptors s ! nat fd) of
          None \<Rightarrow> Some (-1, s)
        | Some ino \<Rightarrow>
            if nbytes = 0 then Some (0, s)
            else
              let old_size = size_inode (inodes s ! ino);
                  is_first_version = (version_count (inodes s ! ino) = 0);
                  detected =
                    (if is_first_version then Some (True, (0, nbytes), s)
                     else if old_size > 0 then
                       (let saved_position = current_position (file_descriptors s ! nat fd) in
                        (case read BS (set_position s fd 0) fd old_size of
                           None \<Rightarrow> None
                         | Some (bytes_read, old_content, s1) \<Rightarrow>
                             let s2 = set_position s1 fd saved_position in
                             if bytes_read \<noteq> int old_size then Some (False, (0, 0), s2)
                             else Some (True, find_delta old_content buffer old_size nbytes, s2)))
                     else Some (True, (0, nbytes), s))
              in (case detected of
                   None \<Rightarrow> None
                 | Some (ok, (d_start, d_size), s2) \<Rightarrow>
                     if \<not> ok then Some (-1, s2)
                     else if d_size = 0 then Some (int nbytes, set_position s2 fd nbytes)
                     else
                       (case write_delta_blocks BS s2 buffer nbytes d_start of
                         None \<Rightarrow> None
                       | Some (ok2, new_first_block, s3) \<Rightarrow>
                           if \<not> ok2 then Some (-1, s3)
                           else
                             let nd = inodes s3 ! ino;
                                 new_version =
                                   \<lparr>version_number = version_count nd + 1,
                                    timestamp = ts,
                                    size_version = nbytes,
                                    block_index = new_first_block,
                                    delta_start = d_start,
                                    delta_size = d_size,
                                    prev_version =
                                      (if version_count nd > 0 then version_count nd else 0)\<rparr>
                             in (case increment_block_refs (blocks s3) new_first_block of
                                  None \<Rightarrow> None
                                | Some bl \<Rightarrow>
                                    Some (int nbytes,
                                      set_position
                                        (s3\<lparr>blocks := bl,
                                            inodes := (inodes s3)
                                              [ino := nd\<lparr>version_history :=
                                                           version_history nd @ [new_version],
                                                         first_block := new_first_block,
                                                         size_inode := nbytes,
                                                         version_count := version_count nd + 1\<rparr>]\<rparr>)
                                        fd nbytes))))))"

section \<open>Rollback\<close>

text \<open>
  The loop of lines 727-737 over the version history: versions up to the target are
  kept, the chains of the others are released.
\<close>

fun rollback_loop ::
  "Block list \<Rightarrow> VersionInfo list \<Rightarrow> nat \<Rightarrow> VersionInfo list \<Rightarrow>
     (VersionInfo list \<times> Block list) option" where
  "rollback_loop bl [] vn kept_versions = Some (kept_versions, bl)"
| "rollback_loop bl (v # vs) vn kept_versions =
     (if version_number v \<le> vn then rollback_loop bl vs vn (kept_versions @ [v])
      else if block_index v < length bl then
        (case decrement_block_refs bl (block_index v) of
           None \<Rightarrow> None
         | Some bl1 \<Rightarrow> rollback_loop bl1 vs vn kept_versions)
      else rollback_loop bl vs vn kept_versions)"

text \<open>
  \<^verbatim>\<open>rollback_to_version\<close>, lines 685-758. \<^verbatim>\<open>target_version\<close> is a pointer to the element
  at position \<open>k\<close> of \<^verbatim>\<open>version_history\<close>. Line 740 assigns \<^verbatim>\<open>kept_versions\<close> to that
  vector before lines 741-749 read through the pointer; the vector has room for the
  shorter list, so the assignment writes \<^verbatim>\<open>kept_versions\<close> over its first elements and
  destroys the others. The reads therefore see element \<open>k\<close> of \<^verbatim>\<open>kept_versions\<close>, and
  have no defined result when that list is not longer than \<open>k\<close>.
\<close>

definition rollback_to_version ::
  "COWFileSystem \<Rightarrow> int \<Rightarrow> nat \<Rightarrow> (bool \<times> COWFileSystem) option" where
  "rollback_to_version s fd vn =
     (if invalid_fd s fd then Some (False, s)
      else
        (case inode (file_descriptors s ! nat fd) of
           None \<Rightarrow> Some (False, s)
         | Some ino \<Rightarrow>
             let nd = inodes s ! ino in
             if vn = 0 \<or> vn > version_count nd then Some (False, s)
             else
               (case find_first (\<lambda>v. version_number v = vn) (version_history nd) of
                  None \<Rightarrow> Some (False, s)
                | Some k \<Rightarrow>
                    (case rollback_loop (blocks s) (version_history nd) vn [] of
                       None \<Rightarrow> None
                     | Some (kept_versions, bl) \<Rightarrow>
                         if k < length kept_versions then
                           (let target_version = kept_versions ! k;
                                fd_entry = file_descriptors s ! nat fd
                            in Some (True,
                                 s\<lparr>blocks := bl,
                                   inodes := (inodes s)
                                     [ino := nd\<lparr>version_history := kept_versions,
                                                first_block := block_index target_version,
                                                size_inode := size_version target_version,
                                                version_count := vn\<rparr>],
                                   file_descriptors := (file_descriptors s)
                                     [nat fd := fd_entry
                                        \<lparr>current_position :=
                                           (if mode fd_entry = WRITE
                                            then size_version target_version else 0)\<rparr>]\<rparr>))
                         else None))))"

section \<open>Garbage collector\<close>

text \<open>The marking walk of lines 807-813 along one chain.\<close>

partial_function (option) mark_chain_loop ::
  "Block list \<Rightarrow> bool list \<Rightarrow> nat \<Rightarrow> bool list option" where
  "mark_chain_loop bl block_used current_block =
     (if current_block \<noteq> 0 \<and> current_block < length bl
      then mark_chain_loop bl
             (if ref_count (bl ! current_block) > 0
              then block_used[current_block := True] else block_used)
             (next_block (bl ! current_block))
      else Some block_used)"

declare mark_chain_loop.simps [code]

fun mark_versions :: "Block list \<Rightarrow> bool list \<Rightarrow> VersionInfo list \<Rightarrow> bool list option" where
  "mark_versions bl block_used [] = Some block_used"
| "mark_versions bl block_used (v # vs) =
     (case mark_chain_loop bl block_used (block_index v) of
        None \<Rightarrow> None
      | Some block_used1 \<Rightarrow> mark_versions bl block_used1 vs)"

fun mark_inodes :: "Block list \<Rightarrow> bool list \<Rightarrow> Inode list \<Rightarrow> bool list option" where
  "mark_inodes bl block_used [] = Some block_used"
| "mark_inodes bl block_used (nd # nds) =
     (if is_used_inode nd then
        (case mark_versions bl block_used (version_history nd) of
           None \<Rightarrow> None
         | Some block_used1 \<Rightarrow> mark_inodes bl block_used1 nds)
      else mark_inodes bl block_used nds)"

text \<open>The inner loop of lines 823-829: it clears a run of unmarked blocks and counts it.\<close>

function sweep_run_loop ::
  "nat \<Rightarrow> bool list \<Rightarrow> Block list \<Rightarrow> nat \<Rightarrow> nat \<Rightarrow> Block list \<times> nat" where
  "sweep_run_loop BS block_used bl start cnt =
     (if start + cnt < length bl \<and> \<not> block_used ! (start + cnt)
      then sweep_run_loop BS block_used
             (bl[start + cnt := (bl ! (start + cnt))
                   \<lparr>is_used := False, next_block := 0, ref_count := 0,
                    data := memset_from (data (bl ! (start + cnt))) 0 (CHR 0x00) BS\<rparr>])
             start (cnt + 1)
      else (bl, cnt))"
  by pat_completeness auto
termination
  by (relation "measure (\<lambda>(BS, u, bl, start, cnt). length bl - (start + cnt))") auto

lemma length_sweep_run_loop:
  "length (fst (sweep_run_loop BS block_used bl start cnt)) = length bl"
proof (induction BS block_used bl start cnt rule: sweep_run_loop.induct)
  case (1 BS block_used bl start cnt)
  show ?case
    using 1 by (subst sweep_run_loop.simps) (simp del: sweep_run_loop.simps)
qed

declare sweep_run_loop.simps [simp del]

text \<open>The outer loop of lines 819-838.\<close>

function sweep_loop :: "nat \<Rightarrow> bool list \<Rightarrow> COWFileSystem \<Rightarrow> nat \<Rightarrow> COWFileSystem" where
  "sweep_loop BS block_used s start =
     (if start < length (blocks s) then
        (if \<not> block_used ! start then
           (let run = sweep_run_loop BS block_used (blocks s) start 0;
                cnt = snd run;
                fl = (if cnt > 0 then add_to_free_list (free_blocks_list s) start cnt
                      else free_blocks_list s)
            in sweep_loop BS block_used (s\<lparr>blocks := fst run, free_blocks_list := fl\<rparr>)
                 (start + cnt + 1))
         else sweep_loop BS block_used s (start + 1))
      else s)"
  by pat_completeness auto
termination
  by (relation "measure (\<lambda>(BS, u, s, start). length (blocks s) - start)")
     (auto simp: length_sweep_run_loop)

declare sweep_loop.simps [simp del]

text \<open>\<^verbatim>\<open>garbage_collect\<close>, lines 800-841.\<close>

definition garbage_collect :: "nat \<Rightarrow> COWFileSystem \<Rightarrow> COWFileSystem option" where
  "garbage_collect BS s =
     (case mark_inodes (blocks s) (replicate (length (blocks s)) False) (inodes s) of
        None \<Rightarrow> None
      | Some block_used \<Rightarrow>
          let s1 = sweep_loop BS block_used s 0
          in Some (s1\<lparr>free_blocks_list := merge_free_blocks (free_blocks_list s1)\<rparr>))"

section \<open>Image lifecycle\<close>

text \<open>\<^verbatim>\<open>init_file_system\<close>, lines 843-870, on the vectors the constructor has sized.\<close>

definition init_file_system :: "nat \<Rightarrow> nat \<Rightarrow> nat \<Rightarrow> COWFileSystem" where
  "init_file_system MAX_FILES BS total_blocks =
     \<lparr>file_descriptors =
        replicate MAX_FILES
          \<lparr>inode = None, mode = READ, current_position = 0, is_valid = False\<rparr>,
      inodes =
        replicate MAX_FILES
          \<lparr>is_used_inode = False, filename = [], first_block = 0, size_inode = 0,
           version_count = 0, version_history = []\<rparr>,
      blocks =
        replicate total_blocks
          \<lparr>is_used = False, next_block = 0, ref_count = 0, data = replicate BS (CHR 0x00)\<rparr>,
      free_blocks_list = []\<rparr>"

text \<open>
  What \<^verbatim>\<open>disk.read\<close> leaves in a vector: the records the file delivers, at most as many
  as the vector holds, and the vector's own elements after them.
\<close>

definition read_records :: "'a list \<Rightarrow> 'a list \<Rightarrow> 'a list" where
  "read_records img vec = take (length vec) img @ drop (length img) vec"

text \<open>
  \<^verbatim>\<open>initialize_disk\<close>, lines 54-84. The image file is \<open>Some\<close> of the inode records and
  the block records it holds, or \<open>None\<close> when no file can be opened for reading;
  \<open>can_create\<close> says whether a new file can then be opened for writing. The result is the
  returned boolean and the new state.
\<close>

definition initialize_disk ::
  "nat \<Rightarrow> COWFileSystem \<Rightarrow> (Inode list \<times> Block list) option \<Rightarrow> bool \<Rightarrow> bool \<times> COWFileSystem" where
  "initialize_disk BS s img can_create =
     (case img of
        Some (img_inodes, img_blocks) \<Rightarrow>
          (True, s\<lparr>inodes := read_records img_inodes (inodes s),
                   blocks := read_records img_blocks (blocks s)\<rparr>)
      | None \<Rightarrow>
          if \<not> can_create then (False, s)
          else
            (True,
             s\<lparr>inodes :=
                 map (\<lambda>nd. nd\<lparr>is_used_inode := False, filename := [], first_block := 0,
                               size_inode := 0, version_count := 0\<rparr>) (inodes s),
               blocks :=
                 map (\<lambda>b. b\<lparr>is_used := False, next_block := 0,
                             data := memset_from (data b) 0 (CHR 0x00) BS\<rparr>) (blocks s)\<rparr>))"

text \<open>
  The constructor, lines 13-36; \<open>None\<close> is the \<^verbatim>\<open>std::runtime_error\<close> it throws.
\<close>

definition new_COWFileSystem ::
  "nat \<Rightarrow> nat \<Rightarrow> nat \<Rightarrow> (Inode list \<times> Block list) option \<Rightarrow> bool \<Rightarrow> COWFileSystem option" where
  "new_COWFileSystem BS MAX_FILES disk_size img can_create =
     (let total_blocks = disk_size div BS;
          s0 = init_file_system MAX_FILES BS total_blocks;
          s1 = s0\<lparr>free_blocks_list := add_to_free_list (free_blocks_list s0) 0 total_blocks\<rparr>;
          r = initialize_disk BS s1 img can_create
      in if \<not> fst r then None else Some (snd r))"

section \<open>Accessors\<close>

text \<open>
  \<^verbatim>\<open>get_file_size\<close>, lines 770-776, \<^verbatim>\<open>get_version_count\<close>, lines 673-679, and
  \<^verbatim>\<open>get_file_status\<close>, lines 778-788, read through the handle's inode pointer without
  testing it: \<open>None\<close> is the read through a null pointer.
\<close>

definition get_file_size :: "COWFileSystem \<Rightarrow> int \<Rightarrow> nat option" where
  "get_file_size s fd =
     (if invalid_fd s fd then Some 0
      else map_option (\<lambda>ino. size_inode (inodes s ! ino)) (inode (file_descriptors s ! nat fd)))"

definition get_version_count :: "COWFileSystem \<Rightarrow> int \<Rightarrow> nat option" where
  "get_version_count s fd =
     (if invalid_fd s fd then Some 0
      else map_option (\<lambda>ino. version_count (inodes s ! ino))
             (inode (file_descriptors s ! nat fd)))"

record FileStatus =
  is_open :: bool
  is_modified :: bool
  current_size :: nat
  current_version :: nat

definition get_file_status :: "COWFileSystem \<Rightarrow> int \<Rightarrow> FileStatus option" where
  "get_file_status s fd =
     (if \<not> invalid_fd s fd then
        map_option
          (\<lambda>ino. \<lparr>is_open = True,
                  is_modified = (mode (file_descriptors s ! nat fd) = WRITE),
                  current_size = size_inode (inodes s ! ino),
                  current_version = version_count (inodes s ! ino)\<rparr>)
          (inode (file_descriptors s ! nat fd))
      else Some \<lparr>is_open = False, is_modified = False, current_size = 0, current_version = 0\<rparr>)"

text \<open>\<^verbatim>\<open>get_total_memory_usage\<close>, lines 790-798.\<close>

definition get_total_memory_usage :: "nat \<Rightarrow> COWFileSystem \<Rightarrow> nat" where
  "get_total_memory_usage BS s =
     foldl (\<lambda>total b. if is_used b then total + BS else total) 0 (blocks s)"

section \<open>The delta detector meets its definition\<close>

lemma lcp_Nil2: "longest_common_prefix xs [] = []"
  by (cases xs) simp_all

lemma length_lcp_take:
  "length (longest_common_prefix (take a xs) (take b ys)) =
     min (length (longest_common_prefix xs ys)) (min a b)"
proof (induction xs ys arbitrary: a b rule: longest_common_prefix.induct)
  case (1 x xs y ys)
  show ?case
  proof (cases a)
    case 0 then show ?thesis by simp
  next
    case (Suc a')
    show ?thesis
    proof (cases b)
      case 0 then show ?thesis using Suc by (simp add: lcp_Nil2)
    next
      case (Suc b')
      then show ?thesis using \<open>a = Suc a'\<close> 1 by simp
    qed
  qed
qed (simp_all add: lcp_Nil2)

lemma delta_start_loop_lcp:
  assumes "old_size \<le> length old_data" "new_size \<le> length new_data"
  shows "delta_start_loop old_data new_data old_size new_size d =
           d + length (longest_common_prefix (drop d (take old_size old_data))
                                             (drop d (take new_size new_data)))"
  using assms
proof (induction old_data new_data old_size new_size d rule: delta_start_loop.induct)
  case (1 old_bytes new_bytes old_size new_size d)
  show ?case
  proof (cases "d < old_size \<and> d < new_size \<and> old_bytes ! d = new_bytes ! d")
    case True
    then have lt: "d < old_size" "d < new_size" by simp_all
    have o: "drop d (take old_size old_bytes) = old_bytes ! d # drop (Suc d) (take old_size old_bytes)"
      using lt "1.prems" by (simp add: Cons_nth_drop_Suc [symmetric])
    have n: "drop d (take new_size new_bytes) = new_bytes ! d # drop (Suc d) (take new_size new_bytes)"
      using lt "1.prems" by (simp add: Cons_nth_drop_Suc [symmetric])
    have "delta_start_loop old_bytes new_bytes old_size new_size d =
          delta_start_loop old_bytes new_bytes old_size new_size (d + 1)"
      using True by (subst delta_start_loop.simps) simp
    also have "\<dots> = d + 1 + length (longest_common_prefix (drop (d + 1) (take old_size old_bytes))
                                             (drop (d + 1) (take new_size new_bytes)))"
      using True "1.IH" "1.prems" by simp
    finally show ?thesis
      using True by (simp add: o n)
  next
    case False
    then consider "old_size \<le> d" | "new_size \<le> d"
      | "d < old_size" "d < new_size" "old_bytes ! d \<noteq> new_bytes ! d" by linarith
    then show ?thesis
    proof cases
      case 1
      then show ?thesis using False by (subst delta_start_loop.simps) simp
    next
      case 2
      then show ?thesis using False by (subst delta_start_loop.simps) (simp add: lcp_Nil2)
    next
      case 3
      then have o: "drop d (take old_size old_bytes) = old_bytes ! d # drop (Suc d) (take old_size old_bytes)"
        using "1.prems" by (simp add: Cons_nth_drop_Suc [symmetric])
      from 3 have n: "drop d (take new_size new_bytes) = new_bytes ! d # drop (Suc d) (take new_size new_bytes)"
        using "1.prems" by (simp add: Cons_nth_drop_Suc [symmetric])
      show ?thesis using False 3 by (subst delta_start_loop.simps) (simp add: o n)
    qed
  qed
qed

lemma common_suffix_loop_lcp:
  assumes "old_size \<le> length old_data" "new_size \<le> length new_data"
  shows "common_suffix_loop old_data new_data old_size new_size ds c =
           c + length (longest_common_prefix
                 (drop c (take (old_size - ds) (rev (take old_size old_data))))
                 (drop c (take (new_size - ds) (rev (take new_size new_data)))))"
  using assms
proof (induction old_data new_data old_size new_size ds c rule: common_suffix_loop.induct)
  case (1 old_bytes new_bytes old_size new_size ds c)
  let ?R1 = "take (old_size - ds) (rev (take old_size old_bytes))"
  let ?R2 = "take (new_size - ds) (rev (take new_size new_bytes))"
  have r1: "c < old_size - ds \<Longrightarrow> drop c ?R1 = old_bytes ! (old_size - 1 - c) # drop (Suc c) ?R1"
    using "1.prems" by (simp add: Cons_nth_drop_Suc [symmetric] rev_nth)
  have r2: "c < new_size - ds \<Longrightarrow> drop c ?R2 = new_bytes ! (new_size - 1 - c) # drop (Suc c) ?R2"
    using "1.prems" by (simp add: Cons_nth_drop_Suc [symmetric] rev_nth)
  show ?case
  proof (cases "c < old_size - ds \<and> c < new_size - ds \<and>
         old_bytes ! (old_size - 1 - c) = new_bytes ! (new_size - 1 - c)")
    case True
    then show ?thesis
      using 1 r1 r2 by (subst common_suffix_loop.simps) simp
  next
    case False
    then consider "old_size - ds \<le> c" | "new_size - ds \<le> c"
      | "c < old_size - ds" "c < new_size - ds"
        "old_bytes ! (old_size - 1 - c) \<noteq> new_bytes ! (new_size - 1 - c)" by linarith
    then show ?thesis
    proof cases
      case 1
      then show ?thesis using False by (subst common_suffix_loop.simps) simp
    next
      case 2
      then show ?thesis using False by (subst common_suffix_loop.simps) (simp add: lcp_Nil2)
    next
      case 3
      then show ?thesis using False r1 r2 by (subst common_suffix_loop.simps) simp
    qed
  qed
qed

lemma lcp_full:
  "length xs = length ys \<Longrightarrow> length (longest_common_prefix xs ys) = length xs \<Longrightarrow> xs = ys"
proof (induction xs ys rule: longest_common_prefix.induct)
  case (1 x xs y ys)
  then show ?case by (auto split: if_splits)
qed simp_all


lemma length_lcp_le2: "length (longest_common_prefix xs ys) \<le> length ys"
  by (induction xs ys rule: longest_common_prefix.induct) simp_all

text \<open>
  Claim C8. The delta detector of the source computes what section 4.7 of the
  specification defines: for buffers that hold at least \<open>old_size\<close> and \<open>new_size\<close>
  bytes, \<open>find_delta\<close> and \<open>find_delta_spec\<close> return the same pair
  \<open>(delta_start, delta_size)\<close>: \<open>(0, 0)\<close> for equal buffers of equal size, otherwise the
  length of the common prefix as start, size \<open>0\<close> for a pure truncation,
  \<open>new_size - old_size\<close> for a pure append, and the remaining bytes minus the bounded
  common suffix in the general case.
\<close>

theorem find_delta_refines_spec:
  assumes "old_size \<le> length old_data" and "new_size \<le> length new_data"
  shows "find_delta old_data new_data old_size new_size =
         find_delta_spec old_data new_data old_size new_size"
proof (cases "old_size = new_size \<and> take old_size old_data = take old_size new_data")
  case True
  then have "find_delta old_data new_data old_size new_size = (0, 0)"
    unfolding find_delta_def by (rule if_P)
  moreover from True have "find_delta_spec old_data new_data old_size new_size = (0, 0)"
    unfolding find_delta_spec_def Let_def by (intro if_P) auto
  ultimately show ?thesis by simp
next
  case False
  define old where "old = take old_size old_data"
  define new where "new = take new_size new_data"
  define ds where "ds = length (longest_common_prefix old new)"
  define cs where "cs = min (length (longest_common_prefix (rev old) (rev new)))
                            (min old_size new_size - ds)"
  have len: "length old = old_size" "length new = new_size"
    using assms by (simp_all add: old_def new_def)
  have dsl: "delta_start_loop old_data new_data old_size new_size 0 = ds"
    using assms by (simp add: delta_start_loop_lcp ds_def old_def new_def)
  have csl: "common_suffix_loop old_data new_data old_size new_size ds 0 = cs"
    using assms
    by (simp add: common_suffix_loop_lcp length_lcp_take min_diff cs_def old_def new_def)
  have ds_le: "ds \<le> new_size"
    using length_lcp_le2 [of old new] len by (simp add: ds_def)
  have False': "\<not> (old_size = new_size \<and> old = new)"
    using False by (auto simp: old_def new_def)
  have full: "\<not> (ds = new_size \<and> new_size = old_size)"
  proof
    assume a: "ds = new_size \<and> new_size = old_size"
    then have "old = new"
      using lcp_full [of old new] len by (simp add: ds_def)
    with a False' show False by simp
  qed
  have code: "find_delta old_data new_data old_size new_size =
       (if ds = new_size \<and> new_size < old_size then (ds, 0)
        else if ds = old_size \<and> new_size > old_size then (ds, new_size - old_size)
        else (ds, (new_size - ds) - cs))"
    unfolding find_delta_def if_not_P [OF False] Let_def dsl csl
    using ds_le by simp
  have spec: "find_delta_spec old_data new_data old_size new_size =
       (if ds = new_size \<and> new_size \<le> old_size then (ds, 0)
        else if ds = old_size \<and> new_size > old_size then (ds, new_size - old_size)
        else (ds, (new_size - ds) - cs))"
    unfolding find_delta_spec_def Let_def old_def [symmetric] new_def [symmetric]
      if_not_P [OF False'] ds_def [symmetric] cs_def [symmetric]
    by simp
  have "(ds = new_size \<and> new_size < old_size) = (ds = new_size \<and> new_size \<le> old_size)"
    using full by auto
  then show ?thesis
    unfolding code spec by simp
qed

text \<open>The detector on the buffers of the third seed scenario.\<close>

theorem find_delta_refines_spec_witness:
  "(5::nat) \<le> length ''hello'' \<and> (5::nat) \<le> length ''help!'' \<and>
   find_delta ''hello'' ''help!'' 5 5 = (3, 2) \<and>
   find_delta_spec ''hello'' ''help!'' 5 5 = (3, 2)"
proof -
  have a: "(5::nat) \<le> length ''hello''" and b: "(5::nat) \<le> length ''help!''" by simp_all
  have "find_delta_spec ''hello'' ''help!'' 5 5 = (3, 2)"
    by (simp add: find_delta_spec_def)
  then show ?thesis
    using find_delta_refines_spec [OF a b] by simp
qed

section \<open>The seed scenario, step by step\<close>

text \<open>
  The first end-to-end scenario of section 8 of the specification, run on the model with
  \<^verbatim>\<open>BLOCK_SIZE = 4096\<close>, \<^verbatim>\<open>MAX_FILES = 16\<close>, \<^verbatim>\<open>MAX_FILENAME_LENGTH = 256\<close> and a disk
  of four blocks. Every state on the way is written out, and every step is evaluated
  by the simplifier.
\<close>

lemma replicate_numeral_Block:
  "replicate (numeral k) (b::Block) = b # replicate (pred_numeral k) b"
  by (simp add: numeral_eq_Suc)

lemma replicate_numeral_Inode:
  "replicate (numeral k) (nd::Inode) = nd # replicate (pred_numeral k) nd"
  by (simp add: numeral_eq_Suc)

lemma replicate_numeral_FileDescriptor:
  "replicate (numeral k) (e::FileDescriptor) = e # replicate (pred_numeral k) e"
  by (simp add: numeral_eq_Suc)

lemma replicate_numeral_bool:
  "replicate (numeral k) (b::bool) = b # replicate (pred_numeral k) b"
  by (simp add: numeral_eq_Suc)

lemma list_update_Cons_numeral:
  "(x # xs)[numeral k := y] = x # xs[pred_numeral k := y]"
  by (simp add: numeral_eq_Suc)

lemmas eval_lists = replicate_numeral_Block replicate_numeral_Inode
  replicate_numeral_FileDescriptor replicate_numeral_bool list_update_Cons_numeral

lemmas eval_write = write_file_def invalid_fd_def Let_def
  write_delta_blocks_def write_delta_blocks_loop.simps allocate_block_def find_best_fit_def
  SIZE_MAX_def memcpy_def memset_from_def increment_block_refs.simps set_position_def
  read_def read_loop.simps skip_blocks_loop.simps sub_size_t_def find_delta_def
  delta_start_loop.simps common_suffix_loop.simps

definition closed_fd :: FileDescriptor where
  "closed_fd = \<lparr>inode = None, mode = READ, current_position = 0, is_valid = False\<rparr>"

definition empty_inode :: Inode where
  "empty_inode =
     \<lparr>is_used_inode = False, filename = [], first_block = 0, size_inode = 0,
      version_count = 0, version_history = []\<rparr>"

definition empty_block :: Block where
  "empty_block =
     \<lparr>is_used = False, next_block = 0, ref_count = 0, data = replicate 4096 (CHR 0x00)\<rparr>"

definition writer_fd :: "nat \<Rightarrow> FileDescriptor" where
  "writer_fd pos = \<lparr>inode = Some 0, mode = WRITE, current_position = pos, is_valid = True\<rparr>"

definition version_1 :: VersionInfo where
  "version_1 =
     \<lparr>version_number = 1, timestamp = ''t1'', size_version = 5, block_index = 0,
      delta_start = 0, delta_size = 5, prev_version = 0\<rparr>"

definition version_2 :: VersionInfo where
  "version_2 =
     \<lparr>version_number = 2, timestamp = ''t2'', size_version = 5, block_index = 1,
      delta_start = 3, delta_size = 2, prev_version = 1\<rparr>"

definition hello_block :: Block where
  "hello_block =
     \<lparr>is_used = True, next_block = 0, ref_count = 0,
      data = ''hello'' @ replicate 4091 (CHR 0x00)\<rparr>"

definition help_block :: Block where
  "help_block =
     \<lparr>is_used = True, next_block = 0, ref_count = 1,
      data = ''p!'' @ replicate 4094 (CHR 0x00)\<rparr>"

text \<open>The state after construction on a path where no image file exists.\<close>

definition fs_fresh :: COWFileSystem where
  "fs_fresh =
     \<lparr>file_descriptors = replicate 16 closed_fd,
      inodes = replicate 16 empty_inode,
      blocks = replicate 4 empty_block,
      free_blocks_list = [\<lparr>start_block = 0, block_count = 4\<rparr>]\<rparr>"

text \<open>After \<^verbatim>\<open>create("a")\<close>, which returns descriptor 0.\<close>

definition fs_created :: COWFileSystem where
  "fs_created =
     fs_fresh
       \<lparr>file_descriptors := writer_fd 0 # replicate 15 closed_fd,
        inodes :=
          \<lparr>is_used_inode = True, filename = ''a'', first_block = 0, size_inode = 0,
           version_count = 0, version_history = []\<rparr> # replicate 15 empty_inode\<rparr>"

text \<open>After \<^verbatim>\<open>write(0, "hello", 5)\<close>.\<close>

definition fs_hello :: COWFileSystem where
  "fs_hello =
     \<lparr>file_descriptors = writer_fd 5 # replicate 15 closed_fd,
      inodes =
        \<lparr>is_used_inode = True, filename = ''a'', first_block = 0, size_inode = 5,
         version_count = 1, version_history = [version_1]\<rparr> # replicate 15 empty_inode,
      blocks = hello_block # replicate 3 empty_block,
      free_blocks_list = [\<lparr>start_block = 1, block_count = 3\<rparr>]\<rparr>"

text \<open>After \<^verbatim>\<open>write(0, "help!", 5)\<close>.\<close>

definition fs_help :: COWFileSystem where
  "fs_help =
     \<lparr>file_descriptors = writer_fd 5 # replicate 15 closed_fd,
      inodes =
        \<lparr>is_used_inode = True, filename = ''a'', first_block = 1, size_inode = 5,
         version_count = 2, version_history = [version_1, version_2]\<rparr>
        # replicate 15 empty_inode,
      blocks = [hello_block, help_block, empty_block, empty_block],
      free_blocks_list = [\<lparr>start_block = 2, block_count = 2\<rparr>]\<rparr>"

text \<open>After \<^verbatim>\<open>open("a", READ)\<close>, which returns descriptor 1.\<close>

definition fs_reader :: COWFileSystem where
  "fs_reader =
     fs_help
       \<lparr>file_descriptors :=
          writer_fd 5
          # \<lparr>inode = Some 0, mode = READ, current_position = 0, is_valid = True\<rparr>
          # replicate 14 closed_fd\<rparr>"

lemmas seed_defs = fs_fresh_def fs_created_def fs_hello_def fs_help_def fs_reader_def
  closed_fd_def empty_inode_def empty_block_def writer_fd_def version_1_def version_2_def
  hello_block_def help_block_def

lemma construct_fresh: "new_COWFileSystem 4096 16 16384 None True = Some fs_fresh"
  by (simp add: new_COWFileSystem_def init_file_system_def initialize_disk_def
      add_to_free_list_def Let_def memset_from_def seed_defs)

lemma create_a: "create 256 fs_fresh ''a'' = (0, fs_created)"
  by (simp add: create_def find_inode_def allocate_file_descriptor_def c_str_def Let_def
      seed_defs eval_lists)

lemma write_hello: "write_file 4096 ''t1'' fs_created 0 ''hello'' 5 = Some (5, fs_hello)"
  by (simp add: eval_write seed_defs eval_lists)

lemma write_help: "write_file 4096 ''t2'' fs_hello 0 ''help!'' 5 = Some (5, fs_help)"
  by (simp add: eval_write seed_defs eval_lists)

lemma open_reader: "open_file fs_help ''a'' READ = (1, fs_reader)"
  by (simp add: open_file_def find_inode_def allocate_file_descriptor_def c_str_def
      seed_defs eval_lists)

section \<open>Where the code leaves its specification\<close>

text \<open>
  Claim C1 (read-after-write) fails on the code. On a fresh image, \<^verbatim>\<open>create("a")\<close>,
  \<^verbatim>\<open>write(fd, "hello", 5)\<close> and \<^verbatim>\<open>write(fd, "help!", 5)\<close> all succeed; a fresh
  \<^verbatim>\<open>open("a", READ)\<close> followed by a \<^verbatim>\<open>read\<close> of 5 bytes then returns 5 bytes, but they
  are \<open>p!\<close> and three zero bytes, not \<open>help!\<close>: \<^verbatim>\<open>write_delta_blocks\<close> copied the buffer
  from \<^verbatim>\<open>delta_start = 3\<close> on.
\<close>

theorem read_after_write_returns_delta_tail:
  "new_COWFileSystem 4096 16 16384 None True = Some fs_fresh \<and>
   create 256 fs_fresh ''a'' = (0, fs_created) \<and>
   write_file 4096 ''t1'' fs_created 0 ''hello'' 5 = Some (5, fs_hello) \<and>
   write_file 4096 ''t2'' fs_hello 0 ''help!'' 5 = Some (5, fs_help) \<and>
   open_file fs_help ''a'' READ = (1, fs_reader) \<and>
   map_option (\<lambda>(r, out, s). (r, out)) (read 4096 fs_reader 1 5) =
     Some (5, ''p!'' @ replicate 3 (CHR 0x00))"
proof -
  have "map_option (\<lambda>(r, out, s). (r, out)) (read 4096 fs_reader 1 5) =
          Some (5, ''p!'' @ replicate 3 (CHR 0x00))"
    by (simp add: eval_write seed_defs eval_lists)
  then show ?thesis
    using construct_fresh create_a write_hello write_help open_reader by simp
qed

text \<open>
  Claim C2 (the new chain holds the entire new buffer) fails on the code. The write of
  \<open>help!\<close> over \<open>hello\<close> records a version of size 5 whose chain is the single block 1,
  and that block holds the two bytes \<open>p!\<close> of the delta window followed by zero bytes.
\<close>

theorem write_stores_delta_tail_only:
  "write_file 4096 ''t2'' fs_hello 0 ''help!'' 5 = Some (5, fs_help) \<and>
   size_version (last (version_history (inodes fs_help ! 0))) = 5 \<and>
   block_index (last (version_history (inodes fs_help ! 0))) = 1 \<and>
   next_block (blocks fs_help ! 1) = 0 \<and>
   data (blocks fs_help ! 1) = ''p!'' @ replicate 4094 (CHR 0x00)"
  using write_help by (simp add: seed_defs)

text \<open>
  Claim C3 (the release walk) fails on the code. On a chain of two blocks, 1 and then 2,
  each with \<^verbatim>\<open>ref_count == 1\<close>, \<^verbatim>\<open>decrement_block_refs(1)\<close> frees block 1 and ends:
  block 2, the recorded successor, keeps its count and stays in use, because the walk
  goes on from the successor's successor.
\<close>

theorem decrement_block_refs_skips_successor:
  "decrement_block_refs
     [\<lparr>is_used = u0, next_block = n0, ref_count = r0, data = d0\<rparr>,
      \<lparr>is_used = True, next_block = 2, ref_count = 1, data = d1\<rparr>,
      \<lparr>is_used = True, next_block = 0, ref_count = 1, data = d2\<rparr>] 1 =
   Some
     [\<lparr>is_used = u0, next_block = n0, ref_count = r0, data = d0\<rparr>,
      \<lparr>is_used = False, next_block = 0, ref_count = 0, data = d1\<rparr>,
      \<lparr>is_used = True, next_block = 0, ref_count = 1, data = d2\<rparr>]"
  by (simp add: decrement_block_refs.simps free_block_def Let_def eval_lists)

text \<open>
  Claim C4 (a block is referenced exactly when a version chain reaches it) fails on the
  code. After \<^verbatim>\<open>create("a")\<close> and \<^verbatim>\<open>write(fd, "hello", 5)\<close> on a fresh image, the only
  version of the in-use inode has block 0 as the head of its chain, block 0 is in use
  and holds the file, and its \<^verbatim>\<open>ref_count\<close> is 0: \<^verbatim>\<open>increment_block_refs(0)\<close> does not
  enter its loop.
\<close>

theorem head_block_zero_is_never_counted:
  "new_COWFileSystem 4096 16 16384 None True = Some fs_fresh \<and>
   create 256 fs_fresh ''a'' = (0, fs_created) \<and>
   write_file 4096 ''t1'' fs_created 0 ''hello'' 5 = Some (5, fs_hello) \<and>
   is_used_inode (inodes fs_hello ! 0) \<and>
   map block_index (version_history (inodes fs_hello ! 0)) = [0] \<and>
   first_block (inodes fs_hello ! 0) = 0 \<and>
   is_used (blocks fs_hello ! 0) \<and>
   ref_count (blocks fs_hello ! 0) = 0"
  using construct_fresh create_a write_hello by (simp add: seed_defs)

text \<open>
  Claim C6 (the collector changes nothing when the invariants hold, and leaves an
  ascending free list without overlap) fails on the code. On the freshly constructed
  file system \<^verbatim>\<open>garbage_collect\<close> returns with the run \<open>(0, 4)\<close> twice in the free list:
  the sweep adds every unmarked run to the list that is already there.
\<close>

theorem garbage_collect_duplicates_free_run:
  "Option.bind (new_COWFileSystem 4096 16 16384 None True) (garbage_collect 4096) =
   Some (fs_fresh\<lparr>free_blocks_list :=
           [\<lparr>start_block = 0, block_count = 4\<rparr>, \<lparr>start_block = 0, block_count = 4\<rparr>]\<rparr>)"
  by (simp add: construct_fresh garbage_collect_def seed_defs eval_lists
      mark_chain_loop.simps sweep_loop.simps sweep_run_loop.simps memset_from_def
      add_to_free_list_def Let_def)

section \<open>The free list after opening an image\<close>

text \<open>
  The free list that section 9 of the specification asks for on reopening: the maximal
  runs of blocks that are not in use, in ascending order. \<open>i\<close> is the index of the first
  block of the list.
\<close>

fun free_runs_spec :: "Block list \<Rightarrow> nat \<Rightarrow> FreeBlockInfo list" where
  "free_runs_spec [] i = []"
| "free_runs_spec (b # bs) i =
     (if is_used b then free_runs_spec bs (i + 1)
      else
        (case free_runs_spec bs (i + 1) of
           [] \<Rightarrow> [\<lparr>start_block = i, block_count = 1\<rparr>]
         | r # rs \<Rightarrow>
             if start_block r = i + 1
             then \<lparr>start_block = i, block_count = block_count r + 1\<rparr> # rs
             else \<lparr>start_block = i, block_count = 1\<rparr> # r # rs))"

definition free_list_rebuilt :: "COWFileSystem \<Rightarrow> bool" where
  "free_list_rebuilt s \<longleftrightarrow> free_blocks_list s = free_runs_spec (blocks s) 0"

text \<open>
  Claim C5 as stated fails: the image that the destructor writes after
  \<^verbatim>\<open>write(fd, "hello", 5)\<close> has block 0 in use, and the file system constructed over it
  has the free list \<open>(0, 4)\<close>, not the run \<open>(1, 3)\<close> of its free blocks.
\<close>

theorem free_list_rebuilt_counterexample:
  "map_option free_list_rebuilt
     (new_COWFileSystem 4096 16 16384 (Some (inodes fs_hello, blocks fs_hello)) True) =
   Some False"
  by (simp add: new_COWFileSystem_def initialize_disk_def init_file_system_def
      add_to_free_list_def Let_def free_list_rebuilt_def read_records_def seed_defs eval_lists)

text \<open>
  Claim C5, amended. When the file system is constructed over an existing image file,
  the free-run list after construction is the single run \<open>(0, total_blocks)\<close> with
  \<open>total_blocks = disk_size / BLOCK_SIZE\<close>, whatever the image holds: the constructor adds
  that run before it reads the image, and nothing scans the blocks read.
\<close>

theorem free_list_after_open_is_single_run:
  "map_option free_blocks_list
     (new_COWFileSystem BS MAX_FILES disk_size (Some img) can_create) =
   Some [\<lparr>start_block = 0, block_count = disk_size div BS\<rparr>]"
  by (simp add: new_COWFileSystem_def initialize_disk_def init_file_system_def
      add_to_free_list_def Let_def split: prod.splits)

section \<open>Frame properties, the handle invariant and the no-op write\<close>

lemma find_first_Some:
  "find_first P xs = Some k \<Longrightarrow> k < length xs \<and> P (xs ! k)"
proof (induction xs arbitrary: k)
  case Nil
  then show ?case by simp
next
  case (Cons x xs)
  show ?case
  proof (cases "P x")
    case True
    with Cons.prems show ?thesis by simp
  next
    case False
    with Cons.prems obtain j where j: "find_first P xs = Some j" "k = Suc j"
      by auto
    with Cons.IH [of j] show ?thesis by simp
  qed
qed

lemma set_position_twice [simp]:
  "set_position (set_position s fd a) fd b = set_position s fd b"
  by (cases "nat fd < length (file_descriptors s)")
     (simp_all add: set_position_def list_update_beyond)

lemma set_position_same:
  "set_position s fd (current_position (file_descriptors s ! nat fd)) = s"
  by (simp add: set_position_def)

lemma set_position_fields [simp]:
  "inodes (set_position s fd p) = inodes s"
  "blocks (set_position s fd p) = blocks s"
  "free_blocks_list (set_position s fd p) = free_blocks_list s"
  "length (file_descriptors (set_position s fd p)) = length (file_descriptors s)"
  by (simp_all add: set_position_def)

lemma invalid_fd_set_position [simp]:
  "invalid_fd (set_position s fd' p) fd = invalid_fd s fd"
  by (cases "nat fd' < length (file_descriptors s)"; cases "nat fd = nat fd'")
     (auto simp: invalid_fd_def set_position_def)

lemma read_frame:
  assumes "read BS s fd n = Some (r, out, s')"
  shows "\<exists>p. s' = set_position s fd p"
proof (cases "s' = s")
  case True
  then show ?thesis using set_position_same [of s fd] by metis
next
  case False
  with assms show ?thesis
    by (auto simp: read_def Let_def set_position_def split: if_splits option.splits prod.splits)
qed


text \<open>
  The handle invariant, and the part of the state it looks at: validity and inode pointer
  of every handle, and the in-use flag of every inode.
\<close>

definition fd_view :: "COWFileSystem \<Rightarrow> (bool \<times> nat option) list \<times> bool list" where
  "fd_view s =
     (map (\<lambda>e. (is_valid e, inode e)) (file_descriptors s), map is_used_inode (inodes s))"

definition fd_inv :: "COWFileSystem \<Rightarrow> bool" where
  "fd_inv s \<longleftrightarrow>
     (\<forall>k < length (file_descriptors s).
        is_valid (file_descriptors s ! k) \<longrightarrow>
        (\<exists>ino. inode (file_descriptors s ! k) = Some ino \<and> ino < length (inodes s) \<and>
               is_used_inode (inodes s ! ino)))"

lemma fd_inv_view:
  assumes "fd_view s' = fd_view s"
  shows "fd_inv s' = fd_inv s"
proof -
  from assms have fds: "map (\<lambda>e. (is_valid e, inode e)) (file_descriptors s') =
      map (\<lambda>e. (is_valid e, inode e)) (file_descriptors s)"
    and ins: "map is_used_inode (inodes s') = map is_used_inode (inodes s)"
    by (simp_all add: fd_view_def)
  from fds have len: "length (file_descriptors s') = length (file_descriptors s)"
    by (rule map_eq_imp_length_eq)
  from ins have leni: "length (inodes s') = length (inodes s)"
    by (rule map_eq_imp_length_eq)
  have e: "is_valid (file_descriptors s' ! k) = is_valid (file_descriptors s ! k) \<and>
           inode (file_descriptors s' ! k) = inode (file_descriptors s ! k)"
    if "k < length (file_descriptors s)" for k
  proof -
    have "map (\<lambda>e. (is_valid e, inode e)) (file_descriptors s') ! k =
          map (\<lambda>e. (is_valid e, inode e)) (file_descriptors s) ! k"
      using fds by simp
    then show ?thesis using that len by simp
  qed
  have u: "is_used_inode (inodes s' ! i) = is_used_inode (inodes s ! i)"
    if "i < length (inodes s)" for i
  proof -
    have "map is_used_inode (inodes s') ! i = map is_used_inode (inodes s) ! i"
      using ins by simp
    then show ?thesis using that leni by simp
  qed
  show ?thesis
    unfolding fd_inv_def len leni using e u by (metis (no_types, lifting))
qed

lemma map_update_same:
  "f y = f (xs ! i) \<Longrightarrow> map f (xs[i := y]) = map f xs"
  by (cases "i < length xs")
     (simp_all add: map_update list_update_beyond list_update_same_conv)

lemma fd_view_set_position [simp]: "fd_view (set_position s fd p) = fd_view s"
  by (simp add: fd_view_def set_position_def map_update_same)

lemma read_fd_view:
  "read BS s fd n = Some (r, out, s') \<Longrightarrow> fd_view s' = fd_view s"
  using read_frame by fastforce


lemma allocate_block_frame:
  "allocate_block s b = Some (ok, i, s') \<Longrightarrow>
     file_descriptors s' = file_descriptors s \<and> inodes s' = inodes s"
  by (auto simp: allocate_block_def Let_def split: option.splits if_splits)

lemma write_delta_blocks_loop_frame:
  "write_delta_blocks_loop BS s src n i f c p r = Some (ok, f', p', s') \<Longrightarrow>
     file_descriptors s' = file_descriptors s \<and> inodes s' = inodes s"
proof (induction "n - i" arbitrary: s src i f c p r)
  case 0
  then show ?case
    by (subst (asm) write_delta_blocks_loop.simps) simp
next
  case (Suc k)
  then have lt: "i < n" by simp
  show ?case
  proof (cases "allocate_block s c")
    case None
    with lt Suc.prems show ?thesis
      by (subst (asm) write_delta_blocks_loop.simps) simp
  next
    case (Some x)
    obtain ok1 cur s1 where x: "x = (ok1, cur, s1)" by (cases x)
    have fr: "file_descriptors s1 = file_descriptors s \<and> inodes s1 = inodes s"
      using Some x allocate_block_frame by blast
    show ?thesis
    proof (cases ok1)
      case False
      with lt Some x Suc.prems fr show ?thesis
        by (subst (asm) write_delta_blocks_loop.simps)
           (auto split: if_splits option.splits)
    next
      case True
      from Suc.prems lt Some x True
      obtain bl2 src2 f2 r2 where
        "write_delta_blocks_loop BS (s1\<lparr>blocks := bl2\<rparr>) src2 n (i + 1) f2 cur cur r2 =
           Some (ok, f', p', s')"
        by (subst (asm) write_delta_blocks_loop.simps) (simp add: Let_def)
      moreover have "k = n - (i + 1)" using Suc.hyps(2) by simp
      ultimately have "file_descriptors s' = file_descriptors (s1\<lparr>blocks := bl2\<rparr>) \<and>
          inodes s' = inodes (s1\<lparr>blocks := bl2\<rparr>)"
        using Suc.hyps(1) by blast
      then show ?thesis using fr by simp
    qed
  qed
qed

lemma write_delta_blocks_frame:
  "write_delta_blocks BS s buffer n ds = Some (ok, f, s') \<Longrightarrow>
     file_descriptors s' = file_descriptors s \<and> inodes s' = inodes s"
  by (auto simp: write_delta_blocks_def Let_def split: if_splits option.splits
      dest!: write_delta_blocks_loop_frame)


lemma handles_set_position [simp]:
  "map (\<lambda>e. (is_valid e, inode e)) (file_descriptors (set_position s fd p)) =
   map (\<lambda>e. (is_valid e, inode e)) (file_descriptors s)"
  by (simp add: set_position_def map_update_same)

lemma write_file_fd_view:
  assumes "write_file BS ts s fd buffer n = Some (r, s')"
  shows "fd_view s' = fd_view s"
proof -
  have rd: "fd_view s1 = fd_view s"
    if "read BS (set_position s fd 0) fd m = Some (x, y, s1)" for m x y s1
    using read_fd_view [OF that] by simp
  from assms show ?thesis
    by (auto simp: write_file_def Let_def fd_view_def map_update_same
        split: if_splits option.splits prod.splits
        dest!: write_delta_blocks_frame rd [unfolded fd_view_def])
qed


lemma rollback_fd_view:
  "rollback_to_version s fd v = Some (ok, s') \<Longrightarrow> fd_view s' = fd_view s"
  by (auto simp: rollback_to_version_def Let_def fd_view_def map_update_same
      split: if_splits option.splits prod.splits)

lemma fd_inv_create:
  assumes "fd_inv s"
  shows "fd_inv (snd (create MAXLEN s fname))"
proof (cases "find_first (\<lambda>nd. \<not> is_used_inode nd) (inodes s)")
  case None
  with assms show ?thesis by (simp add: create_def)
next
  case (Some k)
  then have k: "k < length (inodes s)" "\<not> is_used_inode (inodes s ! k)"
    using find_first_Some by fastforce+
  define nd where "nd = \<lparr>is_used_inode = True, filename = take (MAXLEN - 1) (c_str fname),
     first_block = 0, size_inode = 0, version_count = 0, version_history = []\<rparr>"
  define s1 where "s1 = s\<lparr>inodes := (inodes s)[k := nd]\<rparr>"
  have al: "allocate_file_descriptor s1 = allocate_file_descriptor s"
    by (simp add: allocate_file_descriptor_def s1_def)
  show ?thesis
  proof (cases "allocate_file_descriptor s")
    case None
    have "fd_view (s1\<lparr>inodes := (inodes s1)[k := nd\<lparr>is_used_inode := False\<rparr>]\<rparr>) = fd_view s"
      using k by (simp add: fd_view_def s1_def map_update_same)
    then have "fd_inv (s1\<lparr>inodes := (inodes s1)[k := nd\<lparr>is_used_inode := False\<rparr>]\<rparr>)"
      using assms fd_inv_view by blast
    moreover have "snd (create MAXLEN s fname) = s \<or>
        snd (create MAXLEN s fname) = s1\<lparr>inodes := (inodes s1)[k := nd\<lparr>is_used_inode := False\<rparr>]\<rparr>"
      using Some None al unfolding s1_def nd_def by (simp add: create_def Let_def)
    ultimately show ?thesis using assms by auto
  next
    case fd: (Some j)
    then have j: "j < length (file_descriptors s)"
      using find_first_Some unfolding allocate_file_descriptor_def by fastforce
    have "fd_inv (s1\<lparr>file_descriptors := (file_descriptors s1)
                         [j := \<lparr>inode = Some k, mode = WRITE, current_position = 0,
                                 is_valid = True\<rparr>]\<rparr>)"
      unfolding fd_inv_def
    proof (intro allI impI)
      fix i
      assume i: "i < length (file_descriptors (s1\<lparr>file_descriptors := (file_descriptors s1)
                         [j := \<lparr>inode = Some k, mode = WRITE, current_position = 0,
                                 is_valid = True\<rparr>]\<rparr>))"
        and val: "is_valid (file_descriptors (s1\<lparr>file_descriptors := (file_descriptors s1)
                         [j := \<lparr>inode = Some k, mode = WRITE, current_position = 0,
                                 is_valid = True\<rparr>]\<rparr>) ! i)"
      show "\<exists>ino. inode (file_descriptors (s1\<lparr>file_descriptors := (file_descriptors s1)
                         [j := \<lparr>inode = Some k, mode = WRITE, current_position = 0,
                                 is_valid = True\<rparr>]\<rparr>) ! i) = Some ino \<and>
             ino < length (inodes (s1\<lparr>file_descriptors := (file_descriptors s1)
                         [j := \<lparr>inode = Some k, mode = WRITE, current_position = 0,
                                 is_valid = True\<rparr>]\<rparr>)) \<and>
             is_used_inode (inodes (s1\<lparr>file_descriptors := (file_descriptors s1)
                         [j := \<lparr>inode = Some k, mode = WRITE, current_position = 0,
                                 is_valid = True\<rparr>]\<rparr>) ! ino)"
      proof (cases "i = j")
        case True
        with j k show ?thesis by (simp add: s1_def nd_def)
      next
        case False
        with i val have "i < length (file_descriptors s)" "is_valid (file_descriptors s ! i)"
          by (simp_all add: s1_def)
        with assms obtain ino where ino: "inode (file_descriptors s ! i) = Some ino"
            "ino < length (inodes s)" "is_used_inode (inodes s ! ino)"
          unfolding fd_inv_def by blast
        with k have "ino \<noteq> k" by auto
        with ino False show ?thesis by (simp add: s1_def)
      qed
    qed
    moreover have "snd (create MAXLEN s fname) = s \<or>
        snd (create MAXLEN s fname) = s1\<lparr>file_descriptors := (file_descriptors s1)
                         [j := \<lparr>inode = Some k, mode = WRITE, current_position = 0,
                                 is_valid = True\<rparr>]\<rparr>"
      using Some fd al unfolding s1_def nd_def by (simp add: create_def Let_def)
    ultimately show ?thesis using assms by auto
  qed
qed

lemma fd_inv_update_fd:
  assumes "fd_inv s"
    and "is_valid e \<Longrightarrow>
           \<exists>ino. inode e = Some ino \<and> ino < length (inodes s) \<and> is_used_inode (inodes s ! ino)"
  shows "fd_inv (s\<lparr>file_descriptors := (file_descriptors s)[j := e]\<rparr>)"
  unfolding fd_inv_def
proof (intro allI impI)
  fix i
  assume i: "i < length (file_descriptors (s\<lparr>file_descriptors := (file_descriptors s)[j := e]\<rparr>))"
    and val: "is_valid (file_descriptors (s\<lparr>file_descriptors := (file_descriptors s)[j := e]\<rparr>) ! i)"
  show "\<exists>ino. inode (file_descriptors (s\<lparr>file_descriptors := (file_descriptors s)[j := e]\<rparr>) ! i)
              = Some ino \<and>
           ino < length (inodes (s\<lparr>file_descriptors := (file_descriptors s)[j := e]\<rparr>)) \<and>
           is_used_inode (inodes (s\<lparr>file_descriptors := (file_descriptors s)[j := e]\<rparr>) ! ino)"
  proof (cases "i = j")
    case True
    with i val assms(2) show ?thesis by simp
  next
    case False
    with i val have "i < length (file_descriptors s)" "is_valid (file_descriptors s ! i)"
      by simp_all
    with assms(1) obtain ino where "inode (file_descriptors s ! i) = Some ino"
        "ino < length (inodes s)" "is_used_inode (inodes s ! ino)"
      unfolding fd_inv_def by blast
    with False show ?thesis by simp
  qed
qed

lemma fd_inv_open_file:
  assumes "fd_inv s"
  shows "fd_inv (snd (open_file s fname md))"
proof (cases "find_inode s fname")
  case None
  with assms show ?thesis by (simp add: open_file_def)
next
  case (Some k)
  then have k: "k < length (inodes s)" "is_used_inode (inodes s ! k)"
    using find_first_Some unfolding find_inode_def by fastforce+
  show ?thesis
  proof (cases "allocate_file_descriptor s")
    case None
    with assms Some show ?thesis by (simp add: open_file_def)
  next
    case fd: (Some j)
    have "fd_inv (s\<lparr>file_descriptors := (file_descriptors s)
                     [j := (file_descriptors s ! j)
                        \<lparr>inode := Some k, mode := md, is_valid := True, current_position := 0\<rparr>]\<rparr>)"
      using k by (intro fd_inv_update_fd [OF assms]) simp
    with Some fd show ?thesis by (simp add: open_file_def)
  qed
qed

lemma fd_inv_close:
  assumes "fd_inv s"
  shows "fd_inv (snd (close s fd))"
proof (cases "invalid_fd s fd")
  case True
  with assms show ?thesis by (simp add: close_def)
next
  case False
  have "fd_inv (s\<lparr>file_descriptors := (file_descriptors s)
                   [nat fd := (file_descriptors s ! nat fd)\<lparr>is_valid := False\<rparr>]\<rparr>)"
    by (intro fd_inv_update_fd [OF assms]) simp
  with False show ?thesis by (simp add: close_def)
qed

lemma fd_inv_new:
  "new_COWFileSystem BS MAX_FILES disk_size img can_create = Some s0 \<Longrightarrow> fd_inv s0"
  by (auto simp: new_COWFileSystem_def initialize_disk_def init_file_system_def Let_def
      fd_inv_def split: option.splits if_splits prod.splits)

lemma fd_inv_handle:
  assumes "fd_inv s" "\<not> invalid_fd s fd"
  shows "inode (file_descriptors s ! nat fd) \<noteq> None"
proof -
  from assms(2) have "nat fd < length (file_descriptors s)"
    "is_valid (file_descriptors s ! nat fd)"
    by (auto simp: invalid_fd_def)
  with assms(1) show ?thesis unfolding fd_inv_def by fastforce
qed

text \<open>
  Claim C10. Every valid file-descriptor slot holds a non-null inode pointer to an
  in-use inode slot (\<open>fd_inv\<close>). The constructor establishes this, and \<^verbatim>\<open>create\<close>,
  \<^verbatim>\<open>open\<close>, \<^verbatim>\<open>close\<close>, \<^verbatim>\<open>read\<close>, \<^verbatim>\<open>write\<close> and \<^verbatim>\<open>rollback_to_version\<close> preserve it
  in every state they return; under it the accessors \<^verbatim>\<open>get_file_size\<close>,
  \<^verbatim>\<open>get_version_count\<close> and \<^verbatim>\<open>get_file_status\<close>, which test only the range of the
  descriptor and \<^verbatim>\<open>is_valid\<close>, never read through a null pointer.
\<close>

theorem fd_inv_preserved:
  assumes "fd_inv s"
  shows "fd_inv (snd (create MAXLEN s fname)) \<and>
         fd_inv (snd (open_file s fname md)) \<and>
         fd_inv (snd (close s fd)) \<and>
         (\<forall>r out s'. read BS s fd n = Some (r, out, s') \<longrightarrow> fd_inv s') \<and>
         (\<forall>r s'. write_file BS ts s fd buffer n = Some (r, s') \<longrightarrow> fd_inv s') \<and>
         (\<forall>ok s'. rollback_to_version s fd v = Some (ok, s') \<longrightarrow> fd_inv s') \<and>
         get_file_size s fd \<noteq> None \<and>
         get_version_count s fd \<noteq> None \<and>
         get_file_status s fd \<noteq> None \<and>
         (\<forall>s0. new_COWFileSystem BS MAX_FILES disk_size img can_create = Some s0 \<longrightarrow> fd_inv s0)"
proof -
  have "fd_inv s'" if "read BS s fd n = Some (r, out, s')" for r out s'
    using read_fd_view [OF that] assms fd_inv_view by blast
  moreover have "fd_inv s'" if "write_file BS ts s fd buffer n = Some (r, s')" for r s'
    using write_file_fd_view [OF that] assms fd_inv_view by blast
  moreover have "fd_inv s'" if "rollback_to_version s fd v = Some (ok, s')" for ok s'
    using rollback_fd_view [OF that] assms fd_inv_view by blast
  moreover have "get_file_size s fd \<noteq> None" "get_version_count s fd \<noteq> None"
    "get_file_status s fd \<noteq> None"
    using fd_inv_handle [OF assms, of fd]
    by (auto simp: get_file_size_def get_version_count_def get_file_status_def)
  ultimately show ?thesis
    using fd_inv_create [OF assms] fd_inv_open_file [OF assms] fd_inv_close [OF assms]
      fd_inv_new by blast
qed


text \<open>The invariant along the seed scenario, each state obtained from the one before.\<close>

theorem fd_inv_preserved_witness:
  "fd_inv fs_fresh \<and> fd_inv fs_created \<and> fd_inv fs_hello \<and> fd_inv fs_help \<and>
   fd_inv fs_reader \<and> get_file_size fs_reader 1 \<noteq> None"
proof -
  have fresh: "fd_inv fs_fresh"
    by (rule fd_inv_new [OF construct_fresh])
  have created: "fd_inv fs_created"
    using fd_inv_preserved [OF fresh, where MAXLEN = 256 and fname = "''a''"] create_a
    by simp
  have hello: "fd_inv fs_hello"
    using fd_inv_preserved [OF created, where BS = 4096 and ts = "''t1''" and fd = 0
        and buffer = "''hello''" and n = 5] write_hello
    by simp
  have second: "fd_inv fs_help"
    using fd_inv_preserved [OF hello, where BS = 4096 and ts = "''t2''" and fd = 0
        and buffer = "''help!''" and n = 5] write_help
    by simp
  have reader: "fd_inv fs_reader"
    using fd_inv_preserved [OF second, where fname = "''a''" and md = READ] open_reader
    by simp
  have "get_file_size fs_reader 1 \<noteq> None"
    using fd_inv_preserved [OF reader, where fd = 1] by simp
  with fresh created hello second reader show ?thesis by simp
qed

lemma find_delta_same:
  "take n buffer = take n old_content \<Longrightarrow> find_delta old_content buffer n n = (0, 0)"
  by (simp add: find_delta_def)

text \<open>
  Claim C7. On a valid \<^verbatim>\<open>WRITE\<close> handle of a file that has a version and a positive
  size, when the prior content is read back in full and the delta detector reports
  \<open>delta_size = 0\<close> for the new buffer against it (in particular when the buffer is
  that content), \<^verbatim>\<open>write\<close> returns the requested size \<open>n\<close> and its only effect is that
  the cursor of the handle is \<open>n\<close>: the inode table with its version lists, the block
  array, the free list and every other handle are as before.
\<close>

theorem write_file_noop:
  assumes valid: "\<not> invalid_fd s fd"
    and wr: "mode (file_descriptors s ! nat fd) = WRITE"
    and ino: "inode (file_descriptors s ! nat fd) = Some ino"
    and n: "0 < n"
    and vc: "version_count (inodes s ! ino) \<noteq> 0"
    and sz: "size_inode (inodes s ! ino) \<noteq> 0"
    and rd: "read BS (set_position s fd 0) fd (size_inode (inodes s ! ino)) =
               Some (int (size_inode (inodes s ! ino)), old_content, s1)"
    and dz: "snd (find_delta old_content buffer (size_inode (inodes s ! ino)) n) = 0 \<or>
             (n = size_inode (inodes s ! ino) \<and> take n buffer = take n old_content)"
  shows "write_file BS ts s fd buffer n =
           Some (int n,
             s\<lparr>file_descriptors := (file_descriptors s)
                  [nat fd := (file_descriptors s ! nat fd)\<lparr>current_position := n\<rparr>]\<rparr>)"
proof -
  let ?old_size = "size_inode (inodes s ! ino)"
  from dz have d0: "snd (find_delta old_content buffer ?old_size n) = 0"
    using find_delta_same [of n buffer old_content] by auto
  obtain d where d: "find_delta old_content buffer ?old_size n = (d, 0)"
    using d0 by (cases "find_delta old_content buffer ?old_size n") simp
  obtain p where "s1 = set_position (set_position s fd 0) fd p"
    using read_frame [OF rd] by blast
  then have s1: "s1 = set_position s fd p" by simp
  have restored: "set_position s1 fd (current_position (file_descriptors s ! nat fd)) = s"
    unfolding s1 by (simp add: set_position_same)
  show ?thesis
    using valid wr ino n vc sz rd d restored
    by (simp add: write_file_def Let_def set_position_def [of s fd n])
qed

text \<open>The second seed scenario: writing \<open>hello\<close> over \<open>hello\<close>.\<close>

theorem write_file_noop_witness:
  "\<not> invalid_fd fs_hello 0 \<and> mode (file_descriptors fs_hello ! nat 0) = WRITE \<and>
   inode (file_descriptors fs_hello ! nat 0) = Some 0 \<and>
   version_count (inodes fs_hello ! 0) \<noteq> 0 \<and> size_inode (inodes fs_hello ! 0) = 5 \<and>
   read 4096 (set_position fs_hello 0 0) 0 5 = Some (5, ''hello'', fs_hello) \<and>
   write_file 4096 ''t2'' fs_hello 0 ''hello'' 5 = Some (5, fs_hello)"
proof -
  have a: "\<not> invalid_fd fs_hello 0" "mode (file_descriptors fs_hello ! nat 0) = WRITE"
    "inode (file_descriptors fs_hello ! nat 0) = Some 0"
    "version_count (inodes fs_hello ! 0) \<noteq> 0" "size_inode (inodes fs_hello ! 0) \<noteq> 0"
    by (simp_all add: invalid_fd_def seed_defs)
  have sz: "size_inode (inodes fs_hello ! 0) = 5"
    by (simp add: seed_defs)
  have rd: "read 4096 (set_position fs_hello 0 0) 0 (size_inode (inodes fs_hello ! 0)) =
      Some (int (size_inode (inodes fs_hello ! 0)), ''hello'', fs_hello)"
    by (simp add: eval_write seed_defs eval_lists)
  have dz: "snd (find_delta ''hello'' ''hello'' (size_inode (inodes fs_hello ! 0)) 5) = 0 \<or>
      (5 = size_inode (inodes fs_hello ! 0) \<and> take 5 ''hello'' = take 5 ''hello'')"
    by (simp add: sz)
  have same: "fs_hello\<lparr>file_descriptors := (file_descriptors fs_hello)
       [nat 0 := (file_descriptors fs_hello ! nat 0)\<lparr>current_position := 5\<rparr>]\<rparr> = fs_hello"
    by (simp add: seed_defs)
  have "write_file 4096 ''t2'' fs_hello 0 ''hello'' 5 = Some (5, fs_hello)"
    using write_file_noop [OF a(1) a(2) a(3) _ a(4) a(5) rd dz, of "''t2''"] same by simp
  with a sz rd show ?thesis by simp
qed

section \<open>Rollback meets its contract\<close>

text \<open>
  The block links are well formed when every link stays inside the block array and some
  rank falls along every link that is not the end mark 0, so that no walk along the
  links goes on for ever.
\<close>

definition chains_ok :: "(nat \<Rightarrow> nat) \<Rightarrow> Block list \<Rightarrow> bool" where
  "chains_ok rank bl \<longleftrightarrow>
     (\<forall>b < length bl.
        next_block (bl ! b) < length bl \<and>
        (next_block (bl ! b) \<noteq> 0 \<longrightarrow> rank (next_block (bl ! b)) < rank b))"

definition chains_wf :: "Block list \<Rightarrow> bool" where
  "chains_wf bl \<longleftrightarrow> (\<exists>rank. chains_ok rank bl)"

lemma chains_ok_update:
  assumes "chains_ok rank bl" and "h < length bl"
    and "next_block b' = next_block (bl ! h) \<or> next_block b' = 0"
  shows "chains_ok rank (bl[h := b'])"
  unfolding chains_ok_def
proof (intro allI impI)
  fix b
  assume "b < length (bl[h := b'])"
  then have b: "b < length bl" by simp
  have at_b: "next_block (bl ! b) < length bl"
    "next_block (bl ! b) \<noteq> 0 \<Longrightarrow> rank (next_block (bl ! b)) < rank b"
    using assms(1) b unfolding chains_ok_def by blast+
  have pos: "0 < length bl" using assms(2) by (cases bl) simp_all
  have "next_block (bl[h := b'] ! b) = next_block (bl ! b) \<or> next_block (bl[h := b'] ! b) = 0"
  proof (cases "b = h")
    case True
    then show ?thesis using assms(2,3) by simp
  next
    case False
    then show ?thesis by simp
  qed
  then show "next_block (bl[h := b'] ! b) < length (bl[h := b']) \<and>
        (next_block (bl[h := b'] ! b) \<noteq> 0 \<longrightarrow>
         rank (next_block (bl[h := b'] ! b)) < rank b)"
  proof
    assume e: "next_block (bl[h := b'] ! b) = next_block (bl ! b)"
    show ?thesis unfolding e using at_b by simp
  next
    assume e: "next_block (bl[h := b'] ! b) = 0"
    show ?thesis unfolding e using pos by simp
  qed
qed

lemma sum_ref_count_decrease:
  assumes "h < length bl" and "0 < ref_count (bl ! h)" and "ref_count b' = ref_count (bl ! h) - 1"
  shows "sum_list (map ref_count (bl[h := b'])) < sum_list (map ref_count bl)"
proof -
  have "map ref_count bl ! h \<in> set (map ref_count bl)"
    using assms(1) by (intro nth_mem) simp
  then have "ref_count (bl ! h) \<in> set (map ref_count bl)"
    using assms(1) by simp
  then have le: "ref_count (bl ! h) \<le> sum_list (map ref_count bl)"
    by (simp add: member_le_sum_list)
  have "sum_list (map ref_count (bl[h := b'])) =
        sum_list (map ref_count bl) + ref_count b' - ref_count (bl ! h)"
    using assms(1) by (simp add: map_update sum_list_update)
  with le assms(2,3) show ?thesis by simp
qed

lemma decrement_block_refs_done:
  "\<not> (h \<noteq> 0 \<and> h < length bl) \<Longrightarrow> decrement_block_refs bl h = Some bl"
  by (subst decrement_block_refs.simps) (simp only: if_False)

lemma length_free_block [simp]: "length (free_block bl h) = length bl"
  by (simp add: free_block_def)

lemma decrement_block_refs_skip:
  "h \<noteq> 0 \<Longrightarrow> h < length bl \<Longrightarrow> ref_count (bl ! h) = 0 \<Longrightarrow>
     decrement_block_refs bl h = decrement_block_refs bl (next_block (bl ! h))"
  by (subst decrement_block_refs.simps) simp

lemma decrement_block_refs_keep:
  "h \<noteq> 0 \<Longrightarrow> h < length bl \<Longrightarrow> 1 < ref_count (bl ! h) \<Longrightarrow>
     decrement_block_refs bl h =
       Some (bl[h := (bl ! h)\<lparr>ref_count := ref_count (bl ! h) - 1\<rparr>])"
  by (subst decrement_block_refs.simps) (simp add: Let_def)

lemma decrement_block_refs_free:
  "h \<noteq> 0 \<Longrightarrow> h < length bl \<Longrightarrow> ref_count (bl ! h) = 1 \<Longrightarrow>
     next_block (bl ! h) < length bl \<Longrightarrow>
     decrement_block_refs bl h =
       decrement_block_refs
         (free_block (bl[h := (bl ! h)\<lparr>ref_count := ref_count (bl ! h) - 1\<rparr>]) h)
         (next_block
            (free_block (bl[h := (bl ! h)\<lparr>ref_count := ref_count (bl ! h) - 1\<rparr>]) h
             ! next_block (bl ! h)))"
  by (subst decrement_block_refs.simps) (simp add: Let_def)

lemma decrement_block_refs_returns:
  assumes "chains_ok rank bl"
  shows "\<exists>bl'. decrement_block_refs bl h = Some bl' \<and> chains_ok rank bl' \<and>
               length bl' = length bl"
  using assms
proof (induction "sum_list (map ref_count bl)" arbitrary: bl h rule: less_induct)
  case less
  note ok = less.prems
  note outer = less.hyps
  show ?case
  proof (induction "rank h" arbitrary: h rule: less_induct)
    case (less h)
    note inner = less.hyps
    show ?case
    proof (cases "h \<noteq> 0 \<and> h < length bl")
      case False
      then show ?thesis using ok by (simp add: decrement_block_refs_done)
    next
      case True
      then have h: "h \<noteq> 0" "h < length bl" by simp_all
      have nx: "next_block (bl ! h) < length bl" using ok h by (simp add: chains_ok_def)
      show ?thesis
      proof (cases "0 < ref_count (bl ! h)")
        case False
        then have step: "decrement_block_refs bl h = decrement_block_refs bl (next_block (bl ! h))"
          using h by (simp add: decrement_block_refs_skip)
        show ?thesis
        proof (cases "next_block (bl ! h) = 0")
          case True
          then show ?thesis using step ok by (simp add: decrement_block_refs_done)
        next
          case False
          then have "rank (next_block (bl ! h)) < rank h"
            using ok h by (simp add: chains_ok_def)
          from inner [OF this] show ?thesis using step by simp
        qed
      next
        case True
        define bl1 where "bl1 = bl[h := (bl ! h)\<lparr>ref_count := ref_count (bl ! h) - 1\<rparr>]"
        have ok1: "chains_ok rank bl1"
          unfolding bl1_def using ok h by (intro chains_ok_update) simp_all
        have len1: "length bl1 = length bl" by (simp add: bl1_def)
        have rc1: "ref_count (bl1 ! h) = ref_count (bl ! h) - 1"
          using h by (simp add: bl1_def)
        have nx1: "next_block (bl1 ! h) = next_block (bl ! h)"
          using h by (simp add: bl1_def)
        have sum1: "sum_list (map ref_count bl1) < sum_list (map ref_count bl)"
          unfolding bl1_def using h True by (intro sum_ref_count_decrease) simp_all
        show ?thesis
        proof (cases "ref_count (bl1 ! h) = 0")
          case False
          then have "decrement_block_refs bl h = Some bl1"
            using h True rc1 unfolding bl1_def by (intro decrement_block_refs_keep) simp_all
          then show ?thesis using ok1 len1 by simp
        next
          case zero: True
          define bl2 where "bl2 = free_block bl1 h"
          have bl2: "bl2 = bl1[h := (bl1 ! h)\<lparr>is_used := False, next_block := 0\<rparr>]"
            using h len1 by (simp add: bl2_def free_block_def)
          have ok2: "chains_ok rank bl2"
            unfolding bl2 using ok1 h len1 by (intro chains_ok_update) simp_all
          have len2: "length bl2 = length bl" by (simp add: bl2 len1)
          have sum2: "sum_list (map ref_count bl2) < sum_list (map ref_count bl)"
            using sum1 by (simp add: bl2 map_update_same [where f = ref_count])
          have step: "decrement_block_refs bl h =
                decrement_block_refs bl2 (next_block (bl2 ! next_block (bl ! h)))"
            using h True zero nx rc1 unfolding bl2_def bl1_def
            by (intro decrement_block_refs_free) simp_all
          from outer [OF sum2 ok2, of "next_block (bl2 ! next_block (bl ! h))"]
          show ?thesis using step len2 by simp
        qed
      qed
    qed
  qed
qed


lemma rollback_loop_returns:
  assumes "chains_ok rank bl"
  shows "\<exists>bl'. rollback_loop bl vs vn kept =
                 Some (kept @ filter (\<lambda>x. version_number x \<le> vn) vs, bl') \<and>
               chains_ok rank bl' \<and> length bl' = length bl"
  using assms
proof (induction vs arbitrary: bl kept)
  case Nil
  then show ?case by simp
next
  case (Cons x vs)
  show ?case
  proof (cases "version_number x \<le> vn")
    case True
    with Cons.IH [OF Cons.prems, of "kept @ [x]"] show ?thesis by simp
  next
    case False
    show ?thesis
    proof (cases "block_index x < length bl")
      case outside: False
      with False Cons.IH [OF Cons.prems, of kept] show ?thesis by simp
    next
      case True
      obtain bl1 where bl1: "decrement_block_refs bl (block_index x) = Some bl1"
          "chains_ok rank bl1" "length bl1 = length bl"
        using decrement_block_refs_returns [OF Cons.prems] by blast
      with False True Cons.IH [OF bl1(2), of kept] show ?thesis by simp
    qed
  qed
qed

lemma rollback_loop_keeps_all:
  "\<forall>x \<in> set vs. version_number x \<le> vn \<Longrightarrow>
     rollback_loop bl vs vn kept = Some (kept @ vs, bl)"
  by (induction vs arbitrary: kept) simp_all

lemma find_first_None: "(find_first P xs = None) = (\<forall>x \<in> set xs. \<not> P x)"
  by (induction xs) simp_all

lemma find_first_upt:
  "map f xs = [a..<a + length xs] \<Longrightarrow> a \<le> v \<Longrightarrow> v < a + length xs \<Longrightarrow>
     find_first (\<lambda>x. f x = v) xs = Some (v - a)"
proof (induction xs arbitrary: a)
  case Nil
  then show ?case by simp
next
  case (Cons x xs)
  from Cons.prems(1) have fx: "f x = a" and rest: "map f xs = [Suc a..<Suc a + length xs]"
    by (simp_all add: upt_rec)
  show ?case
  proof (cases "v = a")
    case True
    with fx show ?thesis by simp
  next
    case False
    with Cons.prems have "Suc a \<le> v" "v < Suc a + length xs" by simp_all
    from Cons.IH [OF rest this] False fx Cons.prems(2) show ?thesis
      by (simp add: Suc_diff_le)
  qed
qed

lemma filter_le_upt:
  "map f xs = [a..<a + length xs] \<Longrightarrow>
     filter (\<lambda>x. f x \<le> v) xs = take (Suc v - a) xs"
proof (induction xs arbitrary: a)
  case Nil
  then show ?case by simp
next
  case (Cons x xs)
  from Cons.prems(1) have fx: "f x = a" and rest: "map f xs = [Suc a..<Suc a + length xs]"
    by (simp_all add: upt_rec)
  show ?case
  proof (cases "a \<le> v")
    case True
    with Cons.IH [OF rest] fx show ?thesis by (simp add: Suc_diff_le)
  next
    case False
    then have "filter (\<lambda>x. f x \<le> v) xs = take (Suc v - Suc a) xs"
      using Cons.IH [OF rest] by simp
    with False fx show ?thesis by simp
  qed
qed

text \<open>Invariants 5 and 7 of section 3, for one inode: the versions are numbered 1, 2, ...
  up to \<^verbatim>\<open>version_count\<close>.\<close>

definition versions_wf :: "Inode \<Rightarrow> bool" where
  "versions_wf nd \<longleftrightarrow>
     map version_number (version_history nd) = [1..<Suc (version_count nd)]"

text \<open>The error conditions of section 4.9.\<close>

definition rollback_fails :: "COWFileSystem \<Rightarrow> int \<Rightarrow> nat \<Rightarrow> bool" where
  "rollback_fails s fd v \<longleftrightarrow>
     invalid_fd s fd \<or>
     (case inode (file_descriptors s ! nat fd) of
        None \<Rightarrow> True
      | Some ino \<Rightarrow>
          v = 0 \<or> version_count (inodes s ! ino) < v \<or>
          v \<notin> version_number ` set (version_history (inodes s ! ino)))"

text \<open>
  The states on which the success of a rollback is stated: the inode pointer of the
  handle is in range, the versions of its inode are numbered in order, and the block
  links stay in range and have no cycle.
\<close>

definition rollback_ready :: "COWFileSystem \<Rightarrow> int \<Rightarrow> bool" where
  "rollback_ready s fd \<longleftrightarrow>
     chains_wf (blocks s) \<and>
     (case inode (file_descriptors s ! nat fd) of
        None \<Rightarrow> False
      | Some ino \<Rightarrow> ino < length (inodes s) \<and> versions_wf (inodes s ! ino))"

text \<open>The effect of a successful rollback, as section 4.9 states it.\<close>

definition rolled_back :: "COWFileSystem \<Rightarrow> int \<Rightarrow> nat \<Rightarrow> COWFileSystem \<Rightarrow> bool" where
  "rolled_back s fd v s' \<longleftrightarrow>
     (case inode (file_descriptors s ! nat fd) of
        None \<Rightarrow> False
      | Some ino \<Rightarrow>
          let nd = inodes s ! ino;
              target = version_history nd ! (v - 1);
              fd_entry = file_descriptors s ! nat fd
          in inodes s' =
               (inodes s)
                 [ino := nd\<lparr>version_history := take v (version_history nd),
                            first_block := block_index target,
                            size_inode := size_version target,
                            version_count := v\<rparr>] \<and>
             file_descriptors s' =
               (file_descriptors s)
                 [nat fd := fd_entry
                    \<lparr>current_position :=
                       (if mode fd_entry = WRITE then size_version target else 0)\<rparr>] \<and>
             free_blocks_list s' = free_blocks_list s \<and>
             length (blocks s') = length (blocks s))"

lemma find_first_Some_mem: "find_first P xs = Some k \<Longrightarrow> \<exists>x \<in> set xs. P x"
  using find_first_None [of P xs] by auto

lemma rollback_fails_result:
  assumes "rollback_fails s fd v"
  shows "rollback_to_version s fd v = Some (False, s)"
proof (cases "invalid_fd s fd")
  case True
  then show ?thesis by (simp add: rollback_to_version_def)
next
  case False
  show ?thesis
  proof (cases "inode (file_descriptors s ! nat fd)")
    case None
    with False show ?thesis by (simp add: rollback_to_version_def)
  next
    case (Some ino)
    with assms False have
      "v = 0 \<or> version_count (inodes s ! ino) < v \<or>
       v \<notin> version_number ` set (version_history (inodes s ! ino))"
      by (simp add: rollback_fails_def)
    moreover have "find_first (\<lambda>x. version_number x = v) (version_history (inodes s ! ino)) = None"
      if "v \<notin> version_number ` set (version_history (inodes s ! ino))"
      using that by (auto simp: find_first_None)
    ultimately show ?thesis
      using False Some by (auto simp: rollback_to_version_def Let_def)
  qed
qed

lemma rollback_False_fails:
  assumes "rollback_to_version s fd v = Some (False, s')"
  shows "rollback_fails s fd v"
proof (rule ccontr)
  assume nf: "\<not> rollback_fails s fd v"
  then have valid: "\<not> invalid_fd s fd" by (simp add: rollback_fails_def)
  from nf obtain ino where ino: "inode (file_descriptors s ! nat fd) = Some ino"
    by (cases "inode (file_descriptors s ! nat fd)") (auto simp: rollback_fails_def)
  from nf ino have v: "v \<noteq> 0" "\<not> version_count (inodes s ! ino) < v"
    "v \<in> version_number ` set (version_history (inodes s ! ino))"
    by (auto simp: rollback_fails_def)
  from v(3) obtain k where
    k: "find_first (\<lambda>x. version_number x = v) (version_history (inodes s ! ino)) = Some k"
    using find_first_None [of "\<lambda>x. version_number x = v" "version_history (inodes s ! ino)"]
    by (cases "find_first (\<lambda>x. version_number x = v) (version_history (inodes s ! ino))") auto
  from assms valid ino v(1,2) k show False
    by (auto simp: rollback_to_version_def Let_def split: option.splits if_splits)
qed

lemma versions_wf_facts:
  assumes "versions_wf nd" and "v \<noteq> 0" and "\<not> version_count nd < v"
  shows "find_first (\<lambda>x. version_number x = v) (version_history nd) = Some (v - 1)"
    and "filter (\<lambda>x. version_number x \<le> v) (version_history nd) = take v (version_history nd)"
    and "v - 1 < length (take v (version_history nd))"
    and "\<forall>x \<in> set (take v (version_history nd)). version_number x \<le> v"
    and "versions_wf (nd\<lparr>version_history := take v (version_history nd),
                          first_block := fb, size_inode := sz, version_count := v\<rparr>)"
proof -
  let ?hs = "version_history nd"
  have m: "map version_number ?hs = [1..<Suc (version_count nd)]"
    using assms(1) by (simp add: versions_wf_def)
  have "length (map version_number ?hs) = length [1..<Suc (version_count nd)]"
    by (simp only: m)
  then have len: "length ?hs = version_count nd" by simp
  have upt: "map version_number ?hs = [1..<1 + length ?hs]"
    using m len by simp
  show "find_first (\<lambda>x. version_number x = v) ?hs = Some (v - 1)"
    using find_first_upt [OF upt, of v] assms(2,3) len by simp
  show "filter (\<lambda>x. version_number x \<le> v) ?hs = take v ?hs"
    using filter_le_upt [OF upt, of v] by simp
  show "v - 1 < length (take v ?hs)"
    using assms(2,3) len by simp
  have "take v [1..<Suc (version_count nd)] = [1..<1 + v]"
    using assms(3) by (intro take_upt) simp
  moreover have "map version_number (take v ?hs) = take v (map version_number ?hs)"
    by (simp add: take_map)
  ultimately have mt: "map version_number (take v ?hs) = [1..<Suc v]"
    by (simp only: m) simp
  show "\<forall>x \<in> set (take v ?hs). version_number x \<le> v"
  proof
    fix x
    assume "x \<in> set (take v ?hs)"
    then have "version_number x \<in> set (map version_number (take v ?hs))" by simp
    then show "version_number x \<le> v" unfolding mt by auto
  qed
  show "versions_wf (nd\<lparr>version_history := take v ?hs, first_block := fb,
                         size_inode := sz, version_count := v\<rparr>)"
    using mt by (simp add: versions_wf_def)
qed

lemma rollback_succeeds:
  assumes nf: "\<not> rollback_fails s fd v" and rdy: "rollback_ready s fd"
  shows "\<exists>s'. rollback_to_version s fd v = Some (True, s') \<and> rolled_back s fd v s' \<and>
              rollback_to_version s' fd v = Some (True, s')"
proof -
  from nf have valid: "\<not> invalid_fd s fd" by (simp add: rollback_fails_def)
  then have fd: "nat fd < length (file_descriptors s)"
    by (auto simp: invalid_fd_def)
  from rdy obtain ino where ino: "inode (file_descriptors s ! nat fd) = Some ino"
    by (cases "inode (file_descriptors s ! nat fd)") (auto simp: rollback_ready_def)
  define nd where "nd = inodes s ! ino"
  define hs where "hs = version_history nd"
  define fd_entry where "fd_entry = file_descriptors s ! nat fd"
  from rdy ino have inr: "ino < length (inodes s)" and wf: "versions_wf nd"
    and ch: "chains_wf (blocks s)"
    by (simp_all add: rollback_ready_def nd_def)
  from nf ino have v: "v \<noteq> 0" "\<not> version_count nd < v"
    by (auto simp: rollback_fails_def nd_def)
  note facts = versions_wf_facts [OF wf v, folded hs_def]
  from ch obtain rank where "chains_ok rank (blocks s)"
    by (auto simp: chains_wf_def)
  from rollback_loop_returns [OF this, of hs v "[]"]
  obtain bl' where loop: "rollback_loop (blocks s) hs v [] = Some (take v hs, bl')"
    and len: "length bl' = length (blocks s)"
    by (auto simp: facts(2))
  define target where "target = hs ! (v - 1)"
  have tk: "take v hs ! (v - 1) = target"
    using v by (simp add: target_def)
  define pos where "pos = (if mode fd_entry = WRITE then size_version target else 0)"
  define nd' where "nd' = nd\<lparr>version_history := take v hs, first_block := block_index target,
       size_inode := size_version target, version_count := v\<rparr>"
  define s' where "s' = s\<lparr>blocks := bl', inodes := (inodes s)[ino := nd'],
       file_descriptors := (file_descriptors s)[nat fd := fd_entry\<lparr>current_position := pos\<rparr>]\<rparr>"
  have first: "rollback_to_version s fd v = Some (True, s')"
    using valid ino v facts(1,3) loop tk
    by (simp add: rollback_to_version_def Let_def nd_def [symmetric] hs_def [symmetric]
        fd_entry_def [symmetric] s'_def nd'_def pos_def)
  have post: "rolled_back s fd v s'"
    unfolding rolled_back_def s'_def nd'_def pos_def target_def fd_entry_def hs_def nd_def
      Let_def
    using ino len by simp
  have valid': "\<not> invalid_fd s' fd"
    using valid fd by (simp add: invalid_fd_def s'_def fd_entry_def)
  have entry': "file_descriptors s' ! nat fd = fd_entry\<lparr>current_position := pos\<rparr>"
    using fd by (simp add: s'_def)
  have ino': "inode (file_descriptors s' ! nat fd) = Some ino"
    using ino by (simp add: entry' fd_entry_def)
  have nd_s': "inodes s' ! ino = nd'"
    using inr by (simp add: s'_def)
  have wf': "versions_wf nd'"
    unfolding nd'_def using facts(5) .
  have v': "\<not> version_count nd' < v" by (simp add: nd'_def)
  have hs': "version_history nd' = take v hs" by (simp add: nd'_def)
  note facts' = versions_wf_facts [OF wf' v(1) v', unfolded hs']
  have loop': "rollback_loop (blocks s') (take v hs) v [] = Some (take v hs, blocks s')"
    using rollback_loop_keeps_all [OF facts(4), of "blocks s'" "[]"] by simp
  have same_nd: "nd'\<lparr>version_history := take v hs, first_block := block_index target,
       size_inode := size_version target, version_count := v\<rparr> = nd'"
    by (simp add: nd'_def)
  have same_fd: "(fd_entry\<lparr>current_position := pos\<rparr>)
        \<lparr>current_position := (if mode (fd_entry\<lparr>current_position := pos\<rparr>) = WRITE
                               then size_version target else 0)\<rparr> =
      fd_entry\<lparr>current_position := pos\<rparr>"
    by (simp add: pos_def)
  have second: "rollback_to_version s' fd v = Some (True, s')"
    using valid' ino' v(1) v' facts'(1) loop' tk facts(3)
    by (simp add: rollback_to_version_def Let_def nd_s' hs' entry' same_nd same_fd)
       (simp add: s'_def pos_def nd'_def)
  from first post second show ?thesis by blast
qed

text \<open>
  Claim C9. \<^verbatim>\<open>rollback_to_version(fd, v)\<close> returns failure exactly when the descriptor is
  invalid, the handle has no inode, \<open>v = 0\<close>, \<open>v > version_count\<close>, or no version of the
  history has number \<open>v\<close>, and then it changes nothing. Otherwise, on a state whose
  versions are numbered in order and whose block links are well formed, it returns
  success: the version list is cut to its first \<open>v\<close> entries, \<^verbatim>\<open>first_block\<close> and
  \<^verbatim>\<open>size\<close> are those of version \<open>v\<close>, \<^verbatim>\<open>version_count\<close> is \<open>v\<close>, and the cursor of the
  handle is the new size for a \<^verbatim>\<open>WRITE\<close> handle and 0 otherwise; and the same call made
  again at once succeeds and leaves the state as it is.
\<close>

theorem rollback_to_version_spec:
  "((\<exists>s'. rollback_to_version s fd v = Some (False, s')) \<longleftrightarrow> rollback_fails s fd v) \<and>
   (rollback_fails s fd v \<longrightarrow> rollback_to_version s fd v = Some (False, s)) \<and>
   (\<not> rollback_fails s fd v \<and> rollback_ready s fd \<longrightarrow>
      (\<exists>s'. rollback_to_version s fd v = Some (True, s') \<and> rolled_back s fd v s' \<and>
            rollback_to_version s' fd v = Some (True, s')))"
  using rollback_fails_result [of s fd v] rollback_False_fails [of s fd v]
    rollback_succeeds [of s fd v]
  by blast

lemma chains_ok_no_links:
  assumes "\<forall>x \<in> set bl. next_block x = 0" and "bl \<noteq> []"
  shows "chains_ok rank bl"
  unfolding chains_ok_def
proof (intro allI impI)
  fix b
  assume "b < length bl"
  then have "bl ! b \<in> set bl" by simp
  with assms(1) have "next_block (bl ! b) = 0" by blast
  moreover have "0 < length bl" using assms(2) by simp
  ultimately show "next_block (bl ! b) < length bl \<and>
      (next_block (bl ! b) \<noteq> 0 \<longrightarrow> rank (next_block (bl ! b)) < rank b)"
    by simp
qed

text \<open>
  The fourth seed scenario, a rollback to version 1 after the two writes, and a rollback
  to a version 3 that does not exist.
\<close>

theorem rollback_to_version_spec_witness:
  "\<not> rollback_fails fs_help 0 1 \<and> rollback_ready fs_help 0 \<and>
   (\<exists>s'. rollback_to_version fs_help 0 1 = Some (True, s') \<and> rolled_back fs_help 0 1 s' \<and>
         rollback_to_version s' 0 1 = Some (True, s')) \<and>
   rollback_fails fs_help 0 3 \<and>
   rollback_to_version fs_help 0 3 = Some (False, fs_help)"
proof -
  have nf: "\<not> rollback_fails fs_help 0 1"
    by (simp add: rollback_fails_def invalid_fd_def seed_defs)
  have "chains_ok (\<lambda>b. 0) (blocks fs_help)"
    by (rule chains_ok_no_links) (simp_all add: seed_defs)
  then have ch: "chains_wf (blocks fs_help)"
    unfolding chains_wf_def by blast
  have "[1..<Suc 2] = [1, 2]"
    by (simp add: upt_rec)
  then have rdy: "rollback_ready fs_help 0"
    using ch by (simp add: rollback_ready_def versions_wf_def seed_defs)
  have f: "rollback_fails fs_help 0 3"
    by (simp add: rollback_fails_def invalid_fd_def seed_defs)
  from rollback_to_version_spec [of fs_help 0 1] rollback_to_version_spec [of fs_help 0 3]
    nf rdy f
  show ?thesis by blast
qed

section \<open>The read path returns\<close>

text \<open>
  With a positive block size every pass of the copying loop moves at least one byte, so
  \<^verbatim>\<open>read\<close> returns on every state and every argument.
\<close>

lemma read_loop_done:
  "\<not> (k < n \<and> cur < length bl) \<Longrightarrow> read_loop BS bl n k buf cur off = Some (True, k, buf)"
  by (subst read_loop.simps) (simp only: if_False)

lemma read_loop_unused:
  "k < n \<Longrightarrow> cur < length bl \<Longrightarrow> \<not> is_used (bl ! cur) \<Longrightarrow>
     read_loop BS bl n k buf cur off = Some (False, k, buf)"
  by (subst read_loop.simps) simp

lemma read_loop_step:
  "k < n \<Longrightarrow> cur < length bl \<Longrightarrow> is_used (bl ! cur) \<Longrightarrow>
     read_loop BS bl n k buf cur off =
       read_loop BS bl n (k + min (n - k) (BS - off))
         (buf @ take (min (n - k) (BS - off)) (drop off (data (bl ! cur))))
         (next_block (bl ! cur)) 0"
  by (subst read_loop.simps) (simp add: Let_def)

lemma read_loop_returns:
  assumes "0 < BS" and "off < BS"
  shows "\<exists>r. read_loop BS bl n k buf cur off = Some r"
  using assms(2)
proof (induction "n - k" arbitrary: k buf cur off rule: less_induct)
  case less
  show ?case
  proof (cases "k < n \<and> cur < length bl")
    case False
    from read_loop_done [OF this] show ?thesis by blast
  next
    case True
    show ?thesis
    proof (cases "is_used (bl ! cur)")
      case False
      with True read_loop_unused [of k n cur bl BS buf off] show ?thesis by blast
    next
      case used: True
      have "n - (k + min (n - k) (BS - off)) < n - k"
        using True less.prems by (auto simp: min_def)
      from less.hyps [OF this, of 0] assms(1)
      obtain r where "read_loop BS bl n (k + min (n - k) (BS - off))
            (buf @ take (min (n - k) (BS - off)) (drop off (data (bl ! cur))))
            (next_block (bl ! cur)) 0 = Some r"
        by blast
      with True used read_loop_step [of k n cur bl BS buf off]
      have "read_loop BS bl n k buf cur off = Some r" by simp
      then show ?thesis by blast
    qed
  qed
qed

lemma read_returns:
  assumes "0 < BS"
  shows "\<exists>r. read BS s fd n = Some r"
proof -
  have ne: "read_loop BS bl m 0 [] cur (p mod BS) \<noteq> None" for bl m cur p
    using read_loop_returns [OF assms, of "p mod BS" bl m 0 "[]" cur] assms by auto
  have "read BS s fd n \<noteq> None"
  proof
    assume "read BS s fd n = None"
    then obtain bl m cur p where "read_loop BS bl m 0 [] cur (p mod BS) = None"
      unfolding read_def Let_def by (auto split: option.splits prod.splits if_splits)
    with ne show False by blast
  qed
  then show ?thesis by auto
qed

section \<open>The clean-up walk returns\<close>

text \<open>
  The walk that frees a half-built chain clears the link of every block it visits, so it
  ends on every block array, cyclic or not.
\<close>

lemma free_chain_loop_done:
  "\<not> (h \<noteq> 0 \<and> h < length bl) \<Longrightarrow> free_chain_loop bl h = Some bl"
  by (subst free_chain_loop.simps) (simp only: if_False)

lemma free_chain_loop_step:
  "h \<noteq> 0 \<Longrightarrow> h < length bl \<Longrightarrow>
     free_chain_loop bl h = free_chain_loop (free_block bl h) (next_block (bl ! h))"
  by (subst free_chain_loop.simps) simp

lemma free_chain_loop_returns: "\<exists>bl'. free_chain_loop bl h = Some bl'"
proof (induction "sum_list (map (\<lambda>b. if next_block b \<noteq> 0 then 1 else (0::nat)) bl)"
    arbitrary: bl h rule: less_induct)
  case less
  let ?f = "\<lambda>b. if next_block b \<noteq> 0 then 1 else (0::nat)"
  show ?case
  proof (cases "h \<noteq> 0 \<and> h < length bl")
    case False
    from free_chain_loop_done [OF this] show ?thesis by blast
  next
    case True
    then have h: "h \<noteq> 0" "h < length bl" by simp_all
    show ?thesis
    proof (cases "next_block (bl ! h) = 0")
      case True
      have "free_chain_loop (free_block bl h) 0 = Some (free_block bl h)"
        by (rule free_chain_loop_done) simp
      with True h free_chain_loop_step [of h bl] show ?thesis by simp
    next
      case False
      have fb: "free_block bl h = bl[h := (bl ! h)\<lparr>is_used := False, next_block := 0\<rparr>]"
        using h by (simp add: free_block_def)
      have "map ?f bl ! h \<in> set (map ?f bl)"
        using h by (intro nth_mem) simp
      then have "?f (bl ! h) \<le> sum_list (map ?f bl)"
        using h by (simp add: member_le_sum_list)
      moreover have "sum_list (map ?f (free_block bl h)) =
          sum_list (map ?f bl) + ?f ((bl ! h)\<lparr>is_used := False, next_block := 0\<rparr>) - ?f (bl ! h)"
        using h unfolding fb by (simp add: map_update sum_list_update)
      ultimately have "sum_list (map ?f (free_block bl h)) < sum_list (map ?f bl)"
        using False by simp
      from less.hyps [OF this, of "next_block (bl ! h)"] h free_chain_loop_step [of h bl]
      show ?thesis by simp
    qed
  qed
qed

end
